theory Spec2Isabelle
  imports Main "HOL-Library.Word"
begin

unbundle bit_operations_syntax

section \<open>Machine types and failures\<close>

text \<open>
  The decoder is C over \<^verbatim>\<open>uint8_t\<close>, \<^verbatim>\<open>uint32_t\<close> and \<^verbatim>\<open>int\<close>.
  Unsigned values are words, whose arithmetic wraps as C's does. What C leaves
  undefined is a value of \<open>error\<close>: a read outside the source bytes, a write
  outside the destination, a division by zero, a shift by the width or more, a
  signed overflow. \<open>OutOfFuel\<close> stands for a loop that has not ended after the
  number of iterations it was allowed.
\<close>

type_synonym u8 = "8 word"
type_synonym u32 = "32 word"

text \<open>\<^verbatim>\<open>int32_t\<close> is a 32-bit word read through \<open>sint\<close>.\<close>

type_synonym i32 = "32 word"

datatype error =
    OutOfBoundsRead
  | OutOfBoundsWrite
  | DivisionByZero
  | UndefinedShift
  | SignedOverflow
  | OutOfFuel

definition CL_COMPRESSOR_END_TOKEN :: u32 where
  "CL_COMPRESSOR_END_TOKEN = 0xFFFFFFFF"

section \<open>Bitstream\<close>

text \<open>
  \<^verbatim>\<open>Bitstream_t\<close>: a bit position and the base of the data. The data pointer
  is the byte sequence it points to; the C code never writes through it.
\<close>

record Bitstream_t =
  position :: u32
  data :: "u8 list"

definition InitializeBitstream :: "u8 list \<Rightarrow> Bitstream_t" where
  "InitializeBitstream d = \<lparr>position = 0, data = d\<rparr>"

text \<open>
  The body of the \<^verbatim>\<open>for\<close> loop of \<^verbatim>\<open>ReadBitstream\<close>, run for the
  iterations that are left; \<open>val\<close> is the accumulator \<^verbatim>\<open>value\<close>.
\<close>

fun ReadBitstream_loop :: "nat \<Rightarrow> Bitstream_t \<Rightarrow> u32 \<Rightarrow> error + (u32 \<times> Bitstream_t)" where
  "ReadBitstream_loop 0 bitstream val = Inr (val, bitstream)"
| "ReadBitstream_loop (Suc n) bitstream val =
     (let pos = position bitstream in
      if unat (pos div 8) < length (data bitstream) then
        let b1 = (ucast (data bitstream ! unat (pos div 8)) :: u32);
            b = drop_bit (unat (7 - (pos AND 7))) b1 AND 1
        in ReadBitstream_loop n (bitstream\<lparr>position := pos + 1\<rparr>) (push_bit 1 val OR b)
      else Inl OutOfBoundsRead)"

definition ReadBitstream :: "Bitstream_t \<Rightarrow> u32 \<Rightarrow> error + (u32 \<times> Bitstream_t)" where
  "ReadBitstream bitstream bitLength = ReadBitstream_loop (unat bitLength) bitstream 0"

text \<open>
  \<^verbatim>\<open>ReadFromBitstreamPosition\<close>: the result is the value read, the updated
  external position and the bitstream as the call leaves it.
\<close>

definition ReadFromBitstreamPosition ::
  "Bitstream_t \<Rightarrow> u32 \<Rightarrow> u32 \<Rightarrow> error + (u32 \<times> u32 \<times> Bitstream_t)" where
  "ReadFromBitstreamPosition bitstream pos bitLength =
     (let temp = position bitstream in
      case ReadBitstream (bitstream\<lparr>position := pos\<rparr>) bitLength of
        Inl e \<Rightarrow> Inl e
      | Inr (val, bs') \<Rightarrow> Inr (val, position bs', bs'\<lparr>position := temp\<rparr>))"

text \<open>
  The stream as the specification numbers it: bit \<open>n\<close> of the stream is bit
  \<open>7 - n mod 8\<close> of byte \<open>n div 8\<close>, and \<open>bits_value\<close> is the number that \<open>k\<close>
  bits from position \<open>p\<close> spell, first bit highest.
\<close>

definition stream_bit :: "u8 list \<Rightarrow> nat \<Rightarrow> nat" where
  "stream_bit d n = (if bit (d ! (n div 8)) (7 - n mod 8) then 1 else 0)"

definition bits_value :: "u8 list \<Rightarrow> u32 \<Rightarrow> nat \<Rightarrow> nat" where
  "bits_value d p k = (\<Sum>i<k. stream_bit d (unat (p + of_nat i)) * 2 ^ (k - 1 - i))"

definition read_in_bounds :: "u8 list \<Rightarrow> u32 \<Rightarrow> nat \<Rightarrow> bool" where
  "read_in_bounds d p k = (\<forall>i\<in>{0..<k}. unat (p + of_nat i) div 8 < length d)"

section \<open>Utility functions\<close>

definition OnesCount :: "u32 \<Rightarrow> u32" where
  "OnesCount value0 =
     (let v1 = value0 - (drop_bit 1 value0 AND 0x55555555);
          v2 = (drop_bit 2 v1 AND 0x33333333) + (v1 AND 0x33333333);
          v3 = (drop_bit 4 v2 + v2) AND 0x0f0f0f0f;
          v4 = v3 + drop_bit 8 v3;
          v5 = v4 + drop_bit 16 v4
      in v5 AND 0x0000003f)"

definition FloorLog2 :: "u32 \<Rightarrow> u32" where
  "FloorLog2 value0 =
     (let v1 = value0 OR drop_bit 1 value0;
          v2 = v1 OR drop_bit 2 v1;
          v3 = v2 OR drop_bit 4 v2;
          v4 = v3 OR drop_bit 8 v3;
          v5 = v4 OR drop_bit 16 v4
      in OnesCount (drop_bit 1 v5))"

definition BitsRequired :: "u32 \<Rightarrow> u32" where
  "BitsRequired val = 1 + FloorLog2 val"

section \<open>Universal code (Lomont1)\<close>

text \<open>
  \<^verbatim>\<open>chunkSize\<close>, \<^verbatim>\<open>deltaChunk\<close> and \<^verbatim>\<open>shift\<close> are C \<^verbatim>\<open>int\<close>s: integers
  that must stay in the 32-bit signed range.
\<close>

definition int_in_range :: "int \<Rightarrow> bool" where
  "int_in_range x \<longleftrightarrow> - (2 ^ 31) \<le> x \<and> x < 2 ^ 31"

text \<open>Lines 117 to 122: the chunk size of the next iteration.\<close>

definition next_chunkSize :: "int \<Rightarrow> int \<Rightarrow> int" where
  "next_chunkSize chunkSize deltaChunk =
     (if deltaChunk \<noteq> 0 then
        (let chunkSize' = chunkSize + deltaChunk in if chunkSize' \<le> 0 then 1 else chunkSize')
      else chunkSize)"

text \<open>
  The \<^verbatim>\<open>do ... while (b != 0)\<close> loop. The body runs before the test, so a
  call needs fuel for its first iteration.
\<close>

fun DecodeUniversalLomont1_loop ::
  "nat \<Rightarrow> Bitstream_t \<Rightarrow> u32 \<Rightarrow> int \<Rightarrow> int \<Rightarrow> int \<Rightarrow> error + (u32 \<times> Bitstream_t)" where
  "DecodeUniversalLomont1_loop 0 bitstream val shift chunkSize deltaChunk = Inl OutOfFuel"
| "DecodeUniversalLomont1_loop (Suc fuel) bitstream val shift chunkSize deltaChunk =
     (case ReadBitstream bitstream 1 of
        Inl e \<Rightarrow> Inl e
      | Inr (b, bs1) \<Rightarrow>
     (case ReadBitstream bs1 (word_of_int chunkSize) of
        Inl e \<Rightarrow> Inl e
      | Inr (chunk, bs2) \<Rightarrow>
          if shift < 0 \<or> 32 \<le> shift then Inl UndefinedShift
          else if \<not> int_in_range (shift + chunkSize) then Inl SignedOverflow
          else if deltaChunk \<noteq> 0 \<and> \<not> int_in_range (chunkSize + deltaChunk) then Inl SignedOverflow
          else
            let val' = val + push_bit (nat shift) chunk;
                shift' = shift + chunkSize;
                chunkSize' = next_chunkSize chunkSize deltaChunk
            in if b \<noteq> 0
               then DecodeUniversalLomont1_loop fuel bs2 val' shift' chunkSize' deltaChunk
               else Inr (val', bs2)))"

definition DecodeUniversalLomont1 ::
  "nat \<Rightarrow> Bitstream_t \<Rightarrow> int \<Rightarrow> int \<Rightarrow> error + (u32 \<times> Bitstream_t)" where
  "DecodeUniversalLomont1 fuel bitstream chunkSize deltaChunk =
     DecodeUniversalLomont1_loop fuel bitstream 0 0 chunkSize deltaChunk"

definition GetDecompressedSize :: "nat \<Rightarrow> u8 list \<Rightarrow> error + u32" where
  "GetDecompressedSize fuel source =
     (case DecodeUniversalLomont1 fuel (InitializeBitstream source) 6 0 of
        Inl e \<Rightarrow> Inl e
      | Inr (n, bs) \<Rightarrow> Inr n)"

text \<open>
  The loop as the specification words it, over the natural numbers: read a
  continuation bit and a chunk, add \<open>chunk * 2^shift\<close>, advance the shift, replace
  the chunk size by \<open>max 1 (chunkSize + deltaChunk)\<close> when \<open>deltaChunk\<close> is not zero,
  and stop after the first iteration whose continuation bit was 0. The result is
  the accumulated value and the stream, with the shift and the chunk size of the
  last iteration.
\<close>

inductive lomont1_spec ::
  "int \<Rightarrow> Bitstream_t \<Rightarrow> nat \<Rightarrow> nat \<Rightarrow> int \<Rightarrow> nat \<times> Bitstream_t \<times> nat \<times> int \<Rightarrow> bool"
  for deltaChunk :: int where
  lomont1_exit:
    "ReadBitstream bs 1 = Inr (0, bs1) \<Longrightarrow>
     ReadBitstream bs1 (word_of_int chunkSize) = Inr (chunk, bs2) \<Longrightarrow>
     lomont1_spec deltaChunk bs val shift chunkSize
       (val + unat chunk * 2 ^ shift, bs2, shift, chunkSize)"
| lomont1_repeat:
    "ReadBitstream bs 1 = Inr (b, bs1) \<Longrightarrow> b \<noteq> 0 \<Longrightarrow>
     ReadBitstream bs1 (word_of_int chunkSize) = Inr (chunk, bs2) \<Longrightarrow>
     lomont1_spec deltaChunk bs2 (val + unat chunk * 2 ^ shift) (shift + nat chunkSize)
       (if deltaChunk \<noteq> 0 then max 1 (chunkSize + deltaChunk) else chunkSize) r \<Longrightarrow>
     lomont1_spec deltaChunk bs val shift chunkSize r"

text \<open>
  What C needs of the last iteration for the result to be defined: a shift below
  the width of the value, and \<^verbatim>\<open>shift += chunkSize\<close> and
  \<^verbatim>\<open>chunkSize += deltaChunk\<close> inside the \<^verbatim>\<open>int\<close> range.
\<close>

definition lomont1_defined :: "int \<Rightarrow> nat \<Rightarrow> int \<Rightarrow> bool" where
  "lomont1_defined deltaChunk shift chunkSize \<longleftrightarrow>
     shift < 32 \<and> int shift + chunkSize < 2 ^ 31
     \<and> (deltaChunk \<noteq> 0 \<longrightarrow> chunkSize + deltaChunk < 2 ^ 31)"

text \<open>A code of seven chunks of 6 bits: the seventh, 21, is read at shift 36.\<close>

definition lomont1_stream_long :: "u8 list" where
  "lomont1_stream_long = [0x81, 0x02, 0x04, 0x08, 0x10, 0x0a, 0x80]"

section \<open>Facts about the bitstream reader\<close>

section \<open>Huffman decoder\<close>

text \<open>
  Field names that several C structs share carry the struct as a suffix
  (\<open>_H\<close> Huffman, \<open>_A\<close> arithmetic, \<open>_77\<close> LZ77, \<open>_F\<close> fixed, \<open>_G\<close> Golomb,
  \<open>_SC\<close> LZCL sub-codec, \<open>_CL\<close> LZCL).
\<close>

record HuffmanState_t =
  bitstream_H :: Bitstream_t
  tablePosition :: u32
  byteLength_H :: u32
  bitsPerSymbol_H :: u8
  minCodewordLength :: u8
  maxCodewordLength :: u8
  bitsPerCodelengthCount :: u8

text \<open>The inner loop of \<^verbatim>\<open>ParseHuffmanTable\<close>: skip \<open>count\<close> symbols.\<close>

fun ParseHuffmanTable_symbols :: "nat \<Rightarrow> Bitstream_t \<Rightarrow> u8 \<Rightarrow> error + Bitstream_t" where
  "ParseHuffmanTable_symbols 0 bs bps = Inr bs"
| "ParseHuffmanTable_symbols (Suc n) bs bps =
     (case ReadBitstream bs (ucast bps) of
        Inl e \<Rightarrow> Inl e
      | Inr (symbol, bs') \<Rightarrow> ParseHuffmanTable_symbols n bs' bps)"

text \<open>The outer loop, for the codeword lengths that are left.\<close>

fun ParseHuffmanTable_lengths :: "nat \<Rightarrow> Bitstream_t \<Rightarrow> u8 \<Rightarrow> u8 \<Rightarrow> error + Bitstream_t" where
  "ParseHuffmanTable_lengths 0 bs bpc bps = Inr bs"
| "ParseHuffmanTable_lengths (Suc n) bs bpc bps =
     (case ReadBitstream bs (ucast bpc) of
        Inl e \<Rightarrow> Inl e
      | Inr (count, bs') \<Rightarrow>
     (case ParseHuffmanTable_symbols (unat count) bs' bps of
        Inl e \<Rightarrow> Inl e
      | Inr bs'' \<Rightarrow> ParseHuffmanTable_lengths n bs'' bpc bps))"

definition ParseHuffmanTable :: "HuffmanState_t \<Rightarrow> error + HuffmanState_t" where
  "ParseHuffmanTable state =
     (let state1 = state\<lparr>tablePosition := position (bitstream_H state)\<rparr>;
          lengths = (if minCodewordLength state1 \<le> maxCodewordLength state1
                     then Suc (unat (maxCodewordLength state1) - unat (minCodewordLength state1))
                     else 0)
      in case ParseHuffmanTable_lengths lengths (bitstream_H state1)
                (bitsPerCodelengthCount state1) (bitsPerSymbol_H state1) of
           Inl e \<Rightarrow> Inl e
         | Inr bs \<Rightarrow> Inr (state1\<lparr>bitstream_H := bs\<rparr>))"

definition ReadHuffmanHeaderNoLength :: "nat \<Rightarrow> HuffmanState_t \<Rightarrow> error + HuffmanState_t" where
  "ReadHuffmanHeaderNoLength fuel state =
     (case DecodeUniversalLomont1 fuel (bitstream_H state) 3 0 of
        Inl e \<Rightarrow> Inl e
      | Inr (v1, bs1) \<Rightarrow>
     (case DecodeUniversalLomont1 fuel bs1 3 0 of
        Inl e \<Rightarrow> Inl e
      | Inr (v2, bs2) \<Rightarrow>
     (case DecodeUniversalLomont1 fuel bs2 2 0 of
        Inl e \<Rightarrow> Inl e
      | Inr (v3, bs3) \<Rightarrow>
     (case DecodeUniversalLomont1 fuel bs3 4 (- 1) of
        Inl e \<Rightarrow> Inl e
      | Inr (v4, bs4) \<Rightarrow>
          let minLen = (ucast (1 + v3) :: u8);
              deltaCodewordLength = 1 + v4
          in ParseHuffmanTable
               (state\<lparr>bitstream_H := bs4,
                      bitsPerSymbol_H := ucast (1 + v1),
                      bitsPerCodelengthCount := ucast (1 + v2),
                      minCodewordLength := minLen,
                      maxCodewordLength := ucast (ucast minLen + deltaCodewordLength)\<rparr>)))))"

text \<open>The \<^verbatim>\<open>for\<close> loop of \<^verbatim>\<open>DecompressHuffmanSymbol\<close> that reads the minimum number of bits.\<close>

fun DecompressHuffmanSymbol_first ::
  "nat \<Rightarrow> Bitstream_t \<Rightarrow> u32 \<Rightarrow> u32 \<Rightarrow> error + (u32 \<times> u32 \<times> Bitstream_t)" where
  "DecompressHuffmanSymbol_first 0 bs accumulator firstCodewordOnRow =
     Inr (accumulator, firstCodewordOnRow, bs)"
| "DecompressHuffmanSymbol_first (Suc n) bs accumulator firstCodewordOnRow =
     (case ReadBitstream bs 1 of
        Inl e \<Rightarrow> Inl e
      | Inr (b, bs') \<Rightarrow>
          DecompressHuffmanSymbol_first n bs' (2 * accumulator + b) (push_bit 1 firstCodewordOnRow))"

text \<open>The \<^verbatim>\<open>while (1)\<close> walk over the table rows; it ends only by finding a codeword.\<close>

fun DecompressHuffmanSymbol_walk ::
  "nat \<Rightarrow> HuffmanState_t \<Rightarrow> u32 \<Rightarrow> u32 \<Rightarrow> u32 \<Rightarrow> error + (u32 \<times> HuffmanState_t)" where
  "DecompressHuffmanSymbol_walk 0 state tableIndex accumulator firstCodewordOnRow = Inl OutOfFuel"
| "DecompressHuffmanSymbol_walk (Suc fuel) state tableIndex accumulator firstCodewordOnRow =
     (case ReadFromBitstreamPosition (bitstream_H state) tableIndex
             (ucast (bitsPerCodelengthCount state)) of
        Inl e \<Rightarrow> Inl e
      | Inr (numberOfCodes, tableIndex1, bs1) \<Rightarrow>
          if numberOfCodes > 0 \<and> accumulator - firstCodewordOnRow < numberOfCodes then
            let itemIndex = accumulator - firstCodewordOnRow;
                tableIndex2 = tableIndex1 + itemIndex * ucast (bitsPerSymbol_H state)
            in (case ReadFromBitstreamPosition bs1 tableIndex2 (ucast (bitsPerSymbol_H state)) of
                  Inl e \<Rightarrow> Inl e
                | Inr (symbol, tableIndex3, bs2) \<Rightarrow> Inr (symbol, state\<lparr>bitstream_H := bs2\<rparr>))
          else
            (case ReadBitstream bs1 1 of
               Inl e \<Rightarrow> Inl e
             | Inr (b, bs2) \<Rightarrow>
                 DecompressHuffmanSymbol_walk fuel (state\<lparr>bitstream_H := bs2\<rparr>)
                   (tableIndex1 + numberOfCodes * ucast (bitsPerSymbol_H state))
                   (2 * accumulator + b)
                   (push_bit 1 (firstCodewordOnRow + numberOfCodes))))"

definition DecompressHuffmanSymbol :: "nat \<Rightarrow> HuffmanState_t \<Rightarrow> error + (u32 \<times> HuffmanState_t)" where
  "DecompressHuffmanSymbol fuel state =
     (if byteLength_H state = 0 then Inr (CL_COMPRESSOR_END_TOKEN, state)
      else
        let state1 = (if byteLength_H state \<noteq> 0xFFFFFFFF
                      then state\<lparr>byteLength_H := byteLength_H state - 1\<rparr> else state)
        in case DecompressHuffmanSymbol_first (unat (minCodewordLength state1))
                  (bitstream_H state1) 0 0 of
             Inl e \<Rightarrow> Inl e
           | Inr (accumulator, firstCodewordOnRow, bs) \<Rightarrow>
               DecompressHuffmanSymbol_walk fuel (state1\<lparr>bitstream_H := bs\<rparr>)
                 (tablePosition state1) accumulator firstCodewordOnRow)"

definition DecompressHuffmanStart ::
  "nat \<Rightarrow> HuffmanState_t \<Rightarrow> u8 list \<Rightarrow> i32 \<Rightarrow> error + HuffmanState_t" where
  "DecompressHuffmanStart fuel state source sourceLength =
     (case DecodeUniversalLomont1 fuel (InitializeBitstream source) 6 0 of
        Inl e \<Rightarrow> Inl e
      | Inr (n, bs) \<Rightarrow>
          ReadHuffmanHeaderNoLength fuel (state\<lparr>bitstream_H := bs, byteLength_H := n\<rparr>))"

text \<open>
  The \<^verbatim>\<open>while\<close> loop of the one-shot \<^verbatim>\<open>DecompressHuffman\<close>. \<open>dest\<close> is the
  caller's buffer, of whatever size it really has; \<open>destLength\<close> is the bound the
  caller passed, already cast to \<^verbatim>\<open>uint32_t\<close>.
\<close>

function DecompressHuffman_loop ::
  "nat \<Rightarrow> HuffmanState_t \<Rightarrow> u8 list \<Rightarrow> u32 \<Rightarrow> u32 \<Rightarrow> error + (u32 \<times> u8 list)" where
  "DecompressHuffman_loop fuel state dest destLength byteIndex =
     (if byteLength_H state \<noteq> 0 \<and> byteIndex < destLength then
        (case DecompressHuffmanSymbol fuel state of
           Inl e \<Rightarrow> Inl e
         | Inr (symbol, state') \<Rightarrow>
             if symbol = CL_COMPRESSOR_END_TOKEN then Inr (byteIndex, dest)
             else if unat byteIndex < length dest then
               DecompressHuffman_loop fuel state' (dest[unat byteIndex := ucast symbol])
                 destLength (byteIndex + 1)
             else Inl OutOfBoundsWrite)
      else Inr (byteIndex, dest))"
  by pat_completeness auto
termination
proof (relation "measure (\<lambda>(fuel, state, dest, destLength, byteIndex). unat destLength - unat byteIndex)")
  show "wf (measure (\<lambda>(fuel, state, dest, destLength, byteIndex). unat destLength - unat byteIndex))"
    by simp
next
  fix fuel :: nat and state :: HuffmanState_t and dest :: "u8 list" and destLength byteIndex :: u32
    and x2 :: "u32 \<times> HuffmanState_t" and x1 :: u32 and y :: HuffmanState_t
  assume "byteLength_H state \<noteq> 0 \<and> byteIndex < destLength"
  then have lt: "unat byteIndex < unat destLength" by (simp add: word_less_nat_alt)
  moreover have "unat destLength < 2 ^ 32" using unsigned_less [of destLength] by simp
  ultimately have "unat (byteIndex + 1) = unat byteIndex + 1"
    by (simp add: unat_word_ariths take_bit_eq_mod)
  with lt show "((fuel, y, dest[unat byteIndex := ucast x1], destLength, byteIndex + 1),
          fuel, state, dest, destLength, byteIndex)
         \<in> measure (\<lambda>(fuel, state, dest, destLength, byteIndex). unat destLength - unat byteIndex)"
    by simp
qed

declare DecompressHuffman_loop.simps [simp del]

text \<open>
  \<^verbatim>\<open>DecompressHuffman\<close> declares its state without initialising it and
  \<^verbatim>\<open>DecompressHuffmanStart\<close> assigns every field; the model starts from the state
  \<open>state0\<close> it is given.
\<close>

definition DecompressHuffman ::
  "nat \<Rightarrow> HuffmanState_t \<Rightarrow> u8 list \<Rightarrow> i32 \<Rightarrow> u8 list \<Rightarrow> i32
     \<Rightarrow> error + (i32 \<times> u8 list)" where
  "DecompressHuffman fuel state0 source sourceLength dest destLength =
     (case DecompressHuffmanStart fuel state0 source sourceLength of
        Inl e \<Rightarrow> Inl e
      | Inr state \<Rightarrow>
     (case DecompressHuffman_loop fuel state dest (ucast destLength) 0 of
        Inl e \<Rightarrow> Inl e
      | Inr (byteIndex, dest') \<Rightarrow> Inr (ucast byteIndex, dest')))"

section \<open>Arithmetic decoder\<close>

definition range25Percent :: u32 where "range25Percent = 0x20000000"
definition range50Percent :: u32 where "range50Percent = 0x40000000"
definition range75Percent :: u32 where "range75Percent = 0x60000000"
definition range100Percent :: u32 where "range100Percent = 0x80000000"

record ArithmeticState_t =
  bitstream_A :: Bitstream_t
  lowValue :: u32
  highValue :: u32
  total :: u32
  scaling :: u32
  symbolMin :: u32
  tableStartBitPosition :: u32
  buffer :: u32
  bitLength_A :: u32
  bitsRead :: u32

definition ReadArithmeticBistream ::
  "ArithmeticState_t \<Rightarrow> u32 \<Rightarrow> error + (u32 \<times> ArithmeticState_t)" where
  "ReadArithmeticBistream state bitCount =
     (let state1 = state\<lparr>bitsRead := bitsRead state + 1\<rparr> in
      if bitsRead state1 < bitLength_A state1 then
        (case ReadBitstream (bitstream_A state1) bitCount of
           Inl e \<Rightarrow> Inl e
         | Inr (v, bs) \<Rightarrow> Inr (v, state1\<lparr>bitstream_A := bs\<rparr>))
      else Inr (0, state1))"

definition DecodeArithmeticTable :: "nat \<Rightarrow> ArithmeticState_t \<Rightarrow> error + ArithmeticState_t" where
  "DecodeArithmeticTable fuel state =
     (case DecodeUniversalLomont1 fuel (bitstream_A state) 6 0 of
        Inl e \<Rightarrow> Inl e
      | Inr (symMin, bs1) \<Rightarrow>
     (case DecodeUniversalLomont1 fuel bs1 6 0 of
        Inl e \<Rightarrow> Inl e
      | Inr (symbolMax, bs2) \<Rightarrow>
     (case DecodeUniversalLomont1 fuel bs2 6 0 of
        Inl e \<Rightarrow> Inl e
      | Inr (tableBitLength, bs3) \<Rightarrow>
          Inr (state\<lparr>symbolMin := symMin,
                     tableStartBitPosition := position bs3,
                     bitstream_A := bs3\<lparr>position := position bs3 + tableBitLength\<rparr>\<rparr>))))"

text \<open>The loop that fills the buffer with its first 31 bits.\<close>

fun ReadArithmeticHeader_buffer :: "nat \<Rightarrow> ArithmeticState_t \<Rightarrow> error + ArithmeticState_t" where
  "ReadArithmeticHeader_buffer 0 state = Inr state"
| "ReadArithmeticHeader_buffer (Suc n) state =
     (case ReadArithmeticBistream state 1 of
        Inl e \<Rightarrow> Inl e
      | Inr (b, state') \<Rightarrow>
          ReadArithmeticHeader_buffer n (state'\<lparr>buffer := push_bit 1 (buffer state) OR b\<rparr>))"

definition ReadArithmeticHeaderNoLength ::
  "nat \<Rightarrow> ArithmeticState_t \<Rightarrow> error + (u32 \<times> ArithmeticState_t)" where
  "ReadArithmeticHeaderNoLength fuel state =
     (let state1 = state\<lparr>lowValue := 0, highValue := range100Percent - 1\<rparr> in
      case DecodeUniversalLomont1 fuel (bitstream_A state1) 6 0 of
        Inl e \<Rightarrow> Inl e
      | Inr (tot, bs1) \<Rightarrow>
     (case DecodeUniversalLomont1 fuel bs1 8 (- 1) of
        Inl e \<Rightarrow> Inl e
      | Inr (bitLen, bs2) \<Rightarrow>
          let state2 = state1\<lparr>bitstream_A := bs2, total := tot, bitLength_A := bitLen,
                              bitsRead := 0\<rparr>;
              tempPos = position (bitstream_A state2)
          in (case DecodeArithmeticTable fuel state2 of
                Inl e \<Rightarrow> Inl e
              | Inr state3 \<Rightarrow>
                  let state4 = state3\<lparr>bitsRead := position (bitstream_A state3) - tempPos,
                                      buffer := 0\<rparr>
                  in (case ReadArithmeticHeader_buffer 31 state4 of
                        Inl e \<Rightarrow> Inl e
                      | Inr state5 \<Rightarrow> Inr (total state5, state5)))))"

definition DecompressArithmeticStart ::
  "nat \<Rightarrow> ArithmeticState_t \<Rightarrow> u8 list \<Rightarrow> i32 \<Rightarrow> error + (u32 \<times> ArithmeticState_t)" where
  "DecompressArithmeticStart fuel state source sourceLength =
     ReadArithmeticHeaderNoLength fuel (state\<lparr>bitstream_A := InitializeBitstream source\<rparr>)"

text \<open>The inner \<^verbatim>\<open>do ... while (decision != 0)\<close> loop of the table lookup.\<close>

fun LookupArithmetic_delta :: "nat \<Rightarrow> Bitstream_t \<Rightarrow> u32 \<Rightarrow> error + (u32 \<times> Bitstream_t)" where
  "LookupArithmetic_delta 0 bs delta = Inl OutOfFuel"
| "LookupArithmetic_delta (Suc fuel) bs delta =
     (case ReadBitstream bs 1 of
        Inl e \<Rightarrow> Inl e
      | Inr (decision, bs') \<Rightarrow>
          if decision \<noteq> 0 then LookupArithmetic_delta fuel bs' (delta + 1)
          else Inr (delta + 1, bs'))"

text \<open>One entry of the table: the body of the \<^verbatim>\<open>while (*highCount <= cumCount)\<close> loop
  up to the new \<open>xi\<close>, with the bit width \<open>b1\<close> it was read with.\<close>

definition LookupArithmetic_entry ::
  "nat \<Rightarrow> Bitstream_t \<Rightarrow> u32 \<Rightarrow> error + (u32 \<times> Bitstream_t)" where
  "LookupArithmetic_entry fuel bs b1 =
     (case ReadBitstream bs 1 of
        Inl e \<Rightarrow> Inl e
      | Inr (decision, bs1) \<Rightarrow>
          if decision = 0 then ReadBitstream bs1 b1
          else
            (case LookupArithmetic_delta fuel bs1 0 of
               Inl e \<Rightarrow> Inl e
             | Inr (delta, bs2) \<Rightarrow>
                 let b1' = b1 + delta in
                 (case ReadBitstream bs2 (b1' - 1) of
                    Inl e \<Rightarrow> Inl e
                  | Inr (xi, bs3) \<Rightarrow>
                      if 32 \<le> unat (b1' - 1) then Inl UndefinedShift
                      else Inr (xi OR push_bit (unat (b1' - 1)) 1, bs3))))"

text \<open>The \<^verbatim>\<open>while (*highCount <= cumCount)\<close> loop; the result is
  \<open>(symbol, lowCount, highCount)\<close>.\<close>

fun LookupArithmetic_loop ::
  "nat \<Rightarrow> Bitstream_t \<Rightarrow> u32 \<Rightarrow> u32 \<Rightarrow> u32 \<Rightarrow> u32 \<Rightarrow> u32 \<Rightarrow> u32
     \<Rightarrow> error + (u32 \<times> u32 \<times> u32 \<times> Bitstream_t)" where
  "LookupArithmetic_loop fuel bs cumCount b1 lowCount highCount symbol i =
     (if highCount \<le> cumCount then
        (case fuel of
           0 \<Rightarrow> Inl OutOfFuel
         | Suc fuel' \<Rightarrow>
             (case LookupArithmetic_entry fuel' bs b1 of
                Inl e \<Rightarrow> Inl e
              | Inr (xi, bs') \<Rightarrow>
                  LookupArithmetic_loop fuel' bs' cumCount (BitsRequired xi)
                    highCount (highCount + xi)
                    (if xi \<noteq> 0 then i + 1 else symbol) (i + 1)))
      else Inr (symbol, lowCount, highCount, bs))"

definition LookupArithmeticLowMemoryCount ::
  "nat \<Rightarrow> ArithmeticState_t \<Rightarrow> u32 \<Rightarrow> error + (u32 \<times> u32 \<times> u32 \<times> ArithmeticState_t)" where
  "LookupArithmeticLowMemoryCount fuel state cumCount =
     (let tempPosition = position (bitstream_A state);
          bs0 = (bitstream_A state)\<lparr>position := tableStartBitPosition state\<rparr>
      in case DecodeUniversalLomont1 fuel bs0 6 0 of
           Inl e \<Rightarrow> Inl e
         | Inr (len, bs1) \<Rightarrow>
             if len \<noteq> 0 then
               (case DecodeUniversalLomont1 fuel bs1 6 0 of
                  Inl e \<Rightarrow> Inl e
                | Inr (b1, bs2) \<Rightarrow>
               (case ReadBitstream bs2 b1 of
                  Inl e \<Rightarrow> Inl e
                | Inr (xi, bs3) \<Rightarrow>
               (case LookupArithmetic_loop fuel bs3 cumCount b1 0 xi (symbolMin state)
                       (symbolMin state) of
                  Inl e \<Rightarrow> Inl e
                | Inr (symbol, lowCount, highCount, bs4) \<Rightarrow>
                    Inr (symbol, lowCount, highCount,
                         state\<lparr>bitstream_A := bs4\<lparr>position := tempPosition\<rparr>\<rparr>))))
             else Inr (0, 0, 0, state\<lparr>bitstream_A := bs1\<lparr>position := tempPosition\<rparr>\<rparr>))"

text \<open>The E1/E2 scaling loop.\<close>

fun DecompressArithmeticSymbol_e12 :: "nat \<Rightarrow> ArithmeticState_t \<Rightarrow> error + ArithmeticState_t" where
  "DecompressArithmeticSymbol_e12 fuel state =
     (if highValue state < range50Percent \<or> lowValue state \<ge> range50Percent then
        (case fuel of
           0 \<Rightarrow> Inl OutOfFuel
         | Suc fuel' \<Rightarrow>
             if highValue state < range50Percent then
               (let state1 = state\<lparr>lowValue := 2 * lowValue state,
                                   highValue := 2 * highValue state + 1\<rparr> in
                case ReadArithmeticBistream state1 1 of
                  Inl e \<Rightarrow> Inl e
                | Inr (b, state2) \<Rightarrow>
                    DecompressArithmeticSymbol_e12 fuel'
                      (state2\<lparr>buffer := 2 * buffer state1 + b\<rparr>))
             else if lowValue state \<ge> range50Percent then
               (let state1 = state\<lparr>lowValue := 2 * (lowValue state - range50Percent),
                                   highValue := 2 * (highValue state - range50Percent) + 1\<rparr> in
                case ReadArithmeticBistream state1 1 of
                  Inl e \<Rightarrow> Inl e
                | Inr (b, state2) \<Rightarrow>
                    DecompressArithmeticSymbol_e12 fuel'
                      (state2\<lparr>buffer := 2 * (buffer state1 - range50Percent) + b\<rparr>))
             else DecompressArithmeticSymbol_e12 fuel' state)
      else Inr state)"

text \<open>The E3 scaling loop.\<close>

fun DecompressArithmeticSymbol_e3 :: "nat \<Rightarrow> ArithmeticState_t \<Rightarrow> error + ArithmeticState_t" where
  "DecompressArithmeticSymbol_e3 fuel state =
     (if range25Percent \<le> lowValue state \<and> highValue state < range75Percent then
        (case fuel of
           0 \<Rightarrow> Inl OutOfFuel
         | Suc fuel' \<Rightarrow>
             (let state1 = state\<lparr>lowValue := 2 * (lowValue state - range25Percent),
                                 highValue := 2 * (highValue state - range25Percent) + 1\<rparr> in
              case ReadArithmeticBistream state1 1 of
                Inl e \<Rightarrow> Inl e
              | Inr (b, state2) \<Rightarrow>
                  DecompressArithmeticSymbol_e3 fuel'
                    (state2\<lparr>buffer := 2 * (buffer state1 - range25Percent) + b\<rparr>)))
      else Inr state)"

definition DecompressArithmeticSymbol ::
  "nat \<Rightarrow> ArithmeticState_t \<Rightarrow> error + (u32 \<times> ArithmeticState_t)" where
  "DecompressArithmeticSymbol fuel state =
     (if total state = 0 then Inl DivisionByZero
      else
        let step = (highValue state - lowValue state + 1) div total state in
        if step = 0 then Inl DivisionByZero
        else
          (case LookupArithmeticLowMemoryCount fuel state
                  ((buffer state - lowValue state) div step) of
             Inl e \<Rightarrow> Inl e
           | Inr (symbol, lowCount, highCount, state1) \<Rightarrow>
               let state2 = state1\<lparr>highValue := lowValue state1 + step * highCount - 1\<rparr>;
                   state3 = state2\<lparr>lowValue := lowValue state2 + step * lowCount\<rparr>
               in (case DecompressArithmeticSymbol_e12 fuel state3 of
                     Inl e \<Rightarrow> Inl e
                   | Inr state4 \<Rightarrow>
                  (case DecompressArithmeticSymbol_e3 fuel state4 of
                     Inl e \<Rightarrow> Inl e
                   | Inr state5 \<Rightarrow> Inr (symbol, state5)))))"

text \<open>
  \<open>n\<close> successive calls of \<^verbatim>\<open>DecompressHuffmanSymbol\<close> on the same state, as a
  caller makes them, with the values they return.
\<close>

fun DecompressHuffmanSymbol_calls ::
  "nat \<Rightarrow> nat \<Rightarrow> HuffmanState_t \<Rightarrow> error + (u32 list \<times> HuffmanState_t)" where
  "DecompressHuffmanSymbol_calls fuel 0 state = Inr ([], state)"
| "DecompressHuffmanSymbol_calls fuel (Suc n) state =
     (case DecompressHuffmanSymbol fuel state of
        Inl e \<Rightarrow> Inl e
      | Inr (r, state1) \<Rightarrow>
     (case DecompressHuffmanSymbol_calls fuel n state1 of
        Inl e \<Rightarrow> Inl e
      | Inr (rs, state2) \<Rightarrow> Inr (r # rs, state2)))"

section \<open>Streams used as concrete inputs\<close>

text \<open>
  A Huffman stream of three symbols: \<open>byteLength = 3\<close>, 8 bits per symbol, 2 bits
  per count, codeword lengths 1 to 2, the symbols 0x61 and 0x62 with the codewords
  0 and 1, and the payload bits 0, 1, 0.
\<close>

definition huffman_stream_aba :: "u8 list" where
  "huffman_stream_aba = [0x06, 0xe2, 0x01, 0x30, 0xb1, 0x08]"

definition huffman_state_aba :: HuffmanState_t where
  "huffman_state_aba =
     \<lparr>bitstream_H = \<lparr>position = 43, data = huffman_stream_aba\<rparr>,
      tablePosition = 23, byteLength_H = 3, bitsPerSymbol_H = 8,
      minCodewordLength = 1, maxCodewordLength = 2, bitsPerCodelengthCount = 2\<rparr>"

text \<open>
  A Huffman stream with \<open>byteLength = 1\<close> and 32 bits per symbol, whose only
  symbol, with the codeword 0, is 0xFFFFFFFF.
\<close>

definition huffman_stream_wide :: "u8 list" where
  "huffman_stream_wide = [0x03, 0xe6, 0x00, 0x1f, 0xff, 0xff, 0xff, 0xf0]"

definition huffman_state_wide :: HuffmanState_t where
  "huffman_state_wide =
     \<lparr>bitstream_H = \<lparr>position = 61, data = huffman_stream_wide\<rparr>,
      tablePosition = 27, byteLength_H = 1, bitsPerSymbol_H = 32,
      minCodewordLength = 1, maxCodewordLength = 2, bitsPerCodelengthCount = 1\<rparr>"

section \<open>The range-coder invariant\<close>

text \<open>
  What the specification asks of the arithmetic state after every symbol, and the
  data model's bound on \<open>highValue\<close> (a 31-bit value).
\<close>

definition arithmetic_invariant :: "ArithmeticState_t \<Rightarrow> bool" where
  "arithmetic_invariant s \<longleftrightarrow>
     lowValue s < highValue s \<and> lowValue s \<le> buffer s \<and> buffer s \<le> highValue s
     \<and> range25Percent < highValue s - lowValue s + 1"

text \<open>The window the scaling loops work on: \<open>low \<le> buffer \<le> high\<close>, 31 bits.\<close>

definition arith_window :: "ArithmeticState_t \<Rightarrow> bool" where
  "arith_window s \<longleftrightarrow>
     lowValue s \<le> buffer s \<and> buffer s \<le> highValue s \<and> highValue s < range100Percent"

text \<open>
  The frequency table agrees with \<open>total\<close> at the cumulative count the next
  symbol is looked up with: the upper count found there is positive and at most \<open>total\<close>.
\<close>

definition table_within_total :: "nat \<Rightarrow> ArithmeticState_t \<Rightarrow> bool" where
  "table_within_total fuel s =
     (case LookupArithmeticLowMemoryCount fuel s
             ((buffer s - lowValue s) div ((highValue s - lowValue s + 1) div total s)) of
        Inl e \<Rightarrow> True
      | Inr (symbol, lowCount, highCount, s') \<Rightarrow> 0 < highCount \<and> highCount \<le> total s)"

text \<open>The number of values in the window \<open>[low, high]\<close>.\<close>

definition window_width :: "ArithmeticState_t \<Rightarrow> nat" where
  "window_width s = unat (highValue s) - unat (lowValue s) + 1"

text \<open>The bits of the source from the cursor on.\<close>

definition bits_left :: "Bitstream_t \<Rightarrow> nat" where
  "bits_left bs = 8 * length (data bs) - unat (position bs)"

text \<open>
  The source holds what the next \<open>n\<close> calls of \<^verbatim>\<open>ReadArithmeticBistream\<close> can
  read: the bits of the compressed region that are left, up to \<open>n\<close> of them, lie
  inside the source bytes, and the counter of bits read does not wrap.
\<close>

definition arithmetic_reads_in_source :: "nat \<Rightarrow> ArithmeticState_t \<Rightarrow> bool" where
  "arithmetic_reads_in_source n s \<longleftrightarrow>
     uint (bitsRead s) + int n < 2 ^ 32
     \<and> read_in_bounds (data (bitstream_A s)) (position (bitstream_A s))
          (min n (unat (bitLength_A s) - unat (bitsRead s) - 1))"

text \<open>
  An arithmetic stream: \<open>total = 3\<close>, \<open>bitLength = 80\<close>, symbols 0 and 1 with the
  counts 2 and 1 in a table of 19 bits, then the coded bits; and the state
  \<^verbatim>\<open>DecompressArithmeticStart\<close> leaves for it.
\<close>

definition arithmetic_stream_example :: "u8 list" where
  "arithmetic_stream_example =
     [0x06, 0x50, 0x00, 0x04, 0x98, 0x20, 0x51, 0xd6, 0xb3, 0xac, 0x5e, 0x71, 0x00]"

definition arithmetic_state_example :: ArithmeticState_t where
  "arithmetic_state_example =
     \<lparr>bitstream_A = \<lparr>position = 87, data = arithmetic_stream_example\<rparr>,
      lowValue = 0, highValue = 2147483647, total = 3, scaling = 0, symbolMin = 0,
      tableStartBitPosition = 37, buffer = 1801049647, bitLength_A = 80, bitsRead = 71\<rparr>"

text \<open>
  The states the decoder of this stream goes through differ in the cursor, the
  window, the buffer and the count of bits read.
\<close>

definition arithmetic_state_at :: "u32 \<Rightarrow> u32 \<Rightarrow> u32 \<Rightarrow> u32 \<Rightarrow> u32 \<Rightarrow> ArithmeticState_t" where
  "arithmetic_state_at pos low high buf nread =
     arithmetic_state_example
       \<lparr>bitstream_A := \<lparr>position = pos, data = arithmetic_stream_example\<rparr>,
         lowValue := low, highValue := high, buffer := buf, bitsRead := nread\<rparr>"

section \<open>LZ77 decoder\<close>

record LZ77State_t =
  bitstream_77 :: Bitstream_t
  byteIndex_77 :: u32
  byteLength_77 :: u32
  dest_77 :: "u8 list"
  destLength_77 :: u32
  actualMaxToken :: u32
  actualMaxDistance_77 :: u32
  actualMinLength_77 :: u8
  actualBitsPerSymbol :: u8
  actualBitsPerToken :: u8

definition DecompressLZ77Start ::
  "nat \<Rightarrow> LZ77State_t \<Rightarrow> u8 list \<Rightarrow> i32 \<Rightarrow> u8 list \<Rightarrow> i32 \<Rightarrow> error + LZ77State_t" where
  "DecompressLZ77Start fuel state source sourceLength dest destLength =
     (case DecodeUniversalLomont1 fuel (InitializeBitstream source) 6 0 of
        Inl e \<Rightarrow> Inl e
      | Inr (v1, bs1) \<Rightarrow>
     (case DecodeUniversalLomont1 fuel bs1 3 0 of
        Inl e \<Rightarrow> Inl e
      | Inr (v2, bs2) \<Rightarrow>
     (case DecodeUniversalLomont1 fuel bs2 5 0 of
        Inl e \<Rightarrow> Inl e
      | Inr (v3, bs3) \<Rightarrow>
     (case DecodeUniversalLomont1 fuel bs3 2 0 of
        Inl e \<Rightarrow> Inl e
      | Inr (v4, bs4) \<Rightarrow>
     (case DecodeUniversalLomont1 fuel bs4 25 (- 10) of
        Inl e \<Rightarrow> Inl e
      | Inr (v5, bs5) \<Rightarrow>
     (case DecodeUniversalLomont1 fuel bs5 14 (- 7) of
        Inl e \<Rightarrow> Inl e
      | Inr (v6, bs6) \<Rightarrow>
          Inr (state\<lparr>bitstream_77 := bs6,
                     byteLength_77 := v1,
                     actualBitsPerSymbol := ucast (v2 + 1),
                     actualBitsPerToken := ucast (v3 + 1),
                     actualMinLength_77 := ucast v4,
                     actualMaxToken := v5,
                     actualMaxDistance_77 := v6,
                     byteIndex_77 := 0,
                     dest_77 := dest,
                     destLength_77 := destLength\<rparr>)))))))"

text \<open>
  The copy loop of \<^verbatim>\<open>DecompressLZ77Block\<close>, for the iterations that are left. The
  buffer \<open>dest\<close> is a list of the size it really has: an index outside it is an error.
\<close>

fun DecompressLZ77Block_copy :: "nat \<Rightarrow> LZ77State_t \<Rightarrow> u32 \<Rightarrow> error + LZ77State_t" where
  "DecompressLZ77Block_copy 0 state delta = Inr state"
| "DecompressLZ77Block_copy (Suc n) state delta =
     (if destLength_77 state = 0 then Inl DivisionByZero
      else
        let src = unat ((byteIndex_77 state + delta) mod destLength_77 state);
            dst = unat (byteIndex_77 state mod destLength_77 state)
        in if \<not> src < length (dest_77 state) then Inl OutOfBoundsRead
           else if \<not> dst < length (dest_77 state) then Inl OutOfBoundsWrite
           else DecompressLZ77Block_copy n
                  (state\<lparr>dest_77 := (dest_77 state)[dst := dest_77 state ! src],
                         byteIndex_77 := byteIndex_77 state + 1\<rparr>) delta)"

text \<open>The branch of \<^verbatim>\<open>DecompressLZ77Block\<close> that copies a run, from the decoded
  \<open>distance\<close> and \<open>length\<close> on.\<close>

definition DecompressLZ77Block_run ::
  "LZ77State_t \<Rightarrow> u32 \<Rightarrow> u32 \<Rightarrow> error + (u32 \<times> LZ77State_t)" where
  "DecompressLZ77Block_run state distance len =
     (let delta = destLength_77 state - distance - 1 in
      case DecompressLZ77Block_copy (unat len) state delta of
        Inl e \<Rightarrow> Inl e
      | Inr state' \<Rightarrow> Inr (len, state'))"

definition DecompressLZ77Block :: "LZ77State_t \<Rightarrow> error + (u32 \<times> LZ77State_t)" where
  "DecompressLZ77Block state =
     (if byteIndex_77 state \<ge> byteLength_77 state then Inr (CL_COMPRESSOR_END_TOKEN, state)
      else
        case ReadBitstream (bitstream_77 state) 1 of
          Inl e \<Rightarrow> Inl e
        | Inr (decision, bs1) \<Rightarrow>
            if decision = 0 then
              (case ReadBitstream bs1 (ucast (actualBitsPerSymbol state)) of
                 Inl e \<Rightarrow> Inl e
               | Inr (lit, bs2) \<Rightarrow>
                   if destLength_77 state = 0 then Inl DivisionByZero
                   else
                     let dst = unat (byteIndex_77 state mod destLength_77 state) in
                     if \<not> dst < length (dest_77 state) then Inl OutOfBoundsWrite
                     else Inr (1, state\<lparr>bitstream_77 := bs2,
                                         dest_77 := (dest_77 state)[dst := ucast lit],
                                         byteIndex_77 := byteIndex_77 state + 1\<rparr>))
            else
              (case ReadBitstream bs1 (ucast (actualBitsPerToken state)) of
                 Inl e \<Rightarrow> Inl e
               | Inr (token, bs2) \<Rightarrow>
                   if actualMaxDistance_77 state + 1 = 0 then Inl DivisionByZero
                   else
                     let len = token div (actualMaxDistance_77 state + 1)
                                 + ucast (actualMinLength_77 state);
                         distance = token mod (actualMaxDistance_77 state + 1)
                     in DecompressLZ77Block_run (state\<lparr>bitstream_77 := bs2\<rparr>) distance len))"

section \<open>Fixed and Golomb sub-coders\<close>

record FixedState_t =
  bitstream_F :: Bitstream_t
  bitsPerSymbol_F :: u32

record GolombState_t =
  bitstream_G :: Bitstream_t
  parameter :: u32

definition ReadFixedHeaderNoLength :: "nat \<Rightarrow> FixedState_t \<Rightarrow> error + FixedState_t" where
  "ReadFixedHeaderNoLength fuel state =
     (case DecodeUniversalLomont1 fuel (bitstream_F state) 3 0 of
        Inl e \<Rightarrow> Inl e
      | Inr (v, bs) \<Rightarrow> Inr (state\<lparr>bitstream_F := bs, bitsPerSymbol_F := v + 1\<rparr>))"

definition DecompressFixedSymbol :: "FixedState_t \<Rightarrow> error + (u32 \<times> FixedState_t)" where
  "DecompressFixedSymbol state =
     (case ReadBitstream (bitstream_F state) (bitsPerSymbol_F state) of
        Inl e \<Rightarrow> Inl e
      | Inr (v, bs) \<Rightarrow> Inr (v, state\<lparr>bitstream_F := bs\<rparr>))"

definition ReadGolombHeaderNoLength :: "nat \<Rightarrow> GolombState_t \<Rightarrow> error + GolombState_t" where
  "ReadGolombHeaderNoLength fuel state =
     (case DecodeUniversalLomont1 fuel (bitstream_G state) 6 0 of
        Inl e \<Rightarrow> Inl e
      | Inr (v, bs) \<Rightarrow> Inr (state\<lparr>bitstream_G := bs, parameter := v\<rparr>))"

definition DecodeTruncated :: "Bitstream_t \<Rightarrow> u32 \<Rightarrow> error + (u32 \<times> Bitstream_t)" where
  "DecodeTruncated bitstream n =
     (let k = BitsRequired n in
      if 32 \<le> unat k then Inl UndefinedShift
      else
        let u = push_bit (unat k) 1 - n in
        case ReadBitstream bitstream (k - 1) of
          Inl e \<Rightarrow> Inl e
        | Inr (x, bs1) \<Rightarrow>
            if x \<ge> u then
              (case ReadBitstream bs1 1 of
                 Inl e \<Rightarrow> Inl e
               | Inr (b, bs2) \<Rightarrow> Inr (2 * x + b - u, bs2))
            else Inr (x, bs1))"

text \<open>The \<^verbatim>\<open>while (ReadBitstream(...) == 1) ++q\<close> loop.\<close>

fun DecompressGolombSymbol_unary :: "nat \<Rightarrow> Bitstream_t \<Rightarrow> u32 \<Rightarrow> error + (u32 \<times> Bitstream_t)" where
  "DecompressGolombSymbol_unary 0 bs q = Inl OutOfFuel"
| "DecompressGolombSymbol_unary (Suc fuel) bs q =
     (case ReadBitstream bs 1 of
        Inl e \<Rightarrow> Inl e
      | Inr (b, bs') \<Rightarrow>
          if b = 1 then DecompressGolombSymbol_unary fuel bs' (q + 1) else Inr (q, bs'))"

definition DecompressGolombSymbol :: "nat \<Rightarrow> GolombState_t \<Rightarrow> error + (u32 \<times> GolombState_t)" where
  "DecompressGolombSymbol fuel state =
     (case DecompressGolombSymbol_unary fuel (bitstream_G state) 0 of
        Inl e \<Rightarrow> Inl e
      | Inr (q, bs1) \<Rightarrow>
     (case DecodeTruncated bs1 (parameter state) of
        Inl e \<Rightarrow> Inl e
      | Inr (r, bs2) \<Rightarrow> Inr (q * parameter state + r, state\<lparr>bitstream_G := bs2\<rparr>)))"

section \<open>LZCL decoder\<close>

text \<open>
  \<^verbatim>\<open>LZCLSubCodec_t\<close>: the union of the four sub-coder states together with the
  \<^verbatim>\<open>codecType\<close> that says which member is in use (0 fixed, 1 arithmetic, 2 Huffman,
  3 Golomb) is a datatype; \<^verbatim>\<open>codecType\<close> is read from two bits, so it has no
  other value.
\<close>

datatype LZCLSubCodec_union =
    fixedState FixedState_t
  | arithmeticState ArithmeticState_t
  | huffmanState HuffmanState_t
  | golombState GolombState_t

record LZCLSubCodec_t =
  codec :: LZCLSubCodec_union
  bitLength_SC :: u32

fun codecType :: "LZCLSubCodec_t \<Rightarrow> u8" where
  "codecType c =
     (case codec c of
        fixedState s \<Rightarrow> 0 | arithmeticState s \<Rightarrow> 1 | huffmanState s \<Rightarrow> 2 | golombState s \<Rightarrow> 3)"

text \<open>
  \<^verbatim>\<open>LZCLState_t\<close>. Its anonymous unions overlay \<^verbatim>\<open>decisionRunCodec\<close> on
  \<^verbatim>\<open>decisionCodec\<close> and \<^verbatim>\<open>tokenCodec\<close> on \<^verbatim>\<open>distanceCodec\<close>: each pair is one
  field here, under the name of its second member, and the first member is
  another name for it. \<^verbatim>\<open>curRun\<close> is an \<^verbatim>\<open>int32_t\<close>.
\<close>

record LZCLState_t =
  actualMinLength_CL :: u32
  actualMaxDistance_CL :: u32
  byteLength_CL :: u32
  byteIndex_CL :: u32
  bitstream_CL :: Bitstream_t
  useDecisionRuns :: u8
  decisionCodec :: LZCLSubCodec_t
  literalCodec :: LZCLSubCodec_t
  useTokens :: u8
  distanceCodec :: LZCLSubCodec_t
  lengthCodec :: LZCLSubCodec_t
  initialValue :: u32
  dest_CL :: "u8 list"
  destLength_CL :: u32
  curRun :: i32
  runsLeft :: u32

abbreviation decisionRunCodec :: "LZCLState_t \<Rightarrow> LZCLSubCodec_t" where
  "decisionRunCodec \<equiv> decisionCodec"

abbreviation tokenCodec :: "LZCLState_t \<Rightarrow> LZCLSubCodec_t" where
  "tokenCodec \<equiv> distanceCodec"

text \<open>What \<^verbatim>\<open>memset(state, 0, sizeof(LZCLState_t))\<close> leaves: every field zero, every
  pointer null (an empty byte sequence), every sub-codec of type 0.\<close>

definition LZCLSubCodec_zero :: LZCLSubCodec_t where
  "LZCLSubCodec_zero =
     \<lparr>codec = fixedState \<lparr>bitstream_F = \<lparr>position = 0, data = []\<rparr>, bitsPerSymbol_F = 0\<rparr>,
      bitLength_SC = 0\<rparr>"

definition LZCLState_zero :: LZCLState_t where
  "LZCLState_zero =
     \<lparr>actualMinLength_CL = 0, actualMaxDistance_CL = 0, byteLength_CL = 0, byteIndex_CL = 0,
      bitstream_CL = \<lparr>position = 0, data = []\<rparr>, useDecisionRuns = 0,
      decisionCodec = LZCLSubCodec_zero, literalCodec = LZCLSubCodec_zero, useTokens = 0,
      distanceCodec = LZCLSubCodec_zero, lengthCodec = LZCLSubCodec_zero, initialValue = 0,
      dest_CL = [], destLength_CL = 0, curRun = 0, runsLeft = 0\<rparr>"

text \<open>The zeroed members of the sub-codec union that are not of type 0.\<close>

definition ArithmeticState_zero :: ArithmeticState_t where
  "ArithmeticState_zero =
     \<lparr>bitstream_A = \<lparr>position = 0, data = []\<rparr>, lowValue = 0, highValue = 0, total = 0,
      scaling = 0, symbolMin = 0, tableStartBitPosition = 0, buffer = 0, bitLength_A = 0,
      bitsRead = 0\<rparr>"

definition HuffmanState_zero :: HuffmanState_t where
  "HuffmanState_zero =
     \<lparr>bitstream_H = \<lparr>position = 0, data = []\<rparr>, tablePosition = 0, byteLength_H = 0,
      bitsPerSymbol_H = 0, minCodewordLength = 0, maxCodewordLength = 0,
      bitsPerCodelengthCount = 0\<rparr>"

definition DecodeLZCLSymbol :: "nat \<Rightarrow> LZCLSubCodec_t \<Rightarrow> error + (u32 \<times> LZCLSubCodec_t)" where
  "DecodeLZCLSymbol fuel c =
     (case codec c of
        fixedState s \<Rightarrow>
          (case DecompressFixedSymbol s of
             Inl e \<Rightarrow> Inl e
           | Inr (v, s') \<Rightarrow> Inr (v, c\<lparr>codec := fixedState s'\<rparr>))
      | arithmeticState s \<Rightarrow>
          (case DecompressArithmeticSymbol fuel s of
             Inl e \<Rightarrow> Inl e
           | Inr (v, s') \<Rightarrow> Inr (v, c\<lparr>codec := arithmeticState s'\<rparr>))
      | huffmanState s \<Rightarrow>
          (case DecompressHuffmanSymbol fuel s of
             Inl e \<Rightarrow> Inl e
           | Inr (v, s') \<Rightarrow> Inr (v, c\<lparr>codec := huffmanState s'\<rparr>))
      | golombState s \<Rightarrow>
          (case DecompressGolombSymbol fuel s of
             Inl e \<Rightarrow> Inl e
           | Inr (v, s') \<Rightarrow> Inr (v, c\<lparr>codec := golombState s'\<rparr>)))"

text \<open>
  \<^verbatim>\<open>ReadLZCLItem\<close>. Every sub-codec it fills was zeroed by the \<^verbatim>\<open>memset\<close> of
  \<^verbatim>\<open>DecompressLZCLStart\<close> and is filled once, so the member it selects starts from
  zero. The result is the sub-codec and the parent bitstream, skipped ahead.
\<close>

definition ReadLZCLItem ::
  "nat \<Rightarrow> Bitstream_t \<Rightarrow> error + (LZCLSubCodec_t \<times> Bitstream_t)" where
  "ReadLZCLItem fuel bitstream =
     (case ReadBitstream bitstream 2 of
        Inl e \<Rightarrow> Inl e
      | Inr (ctype, bs1) \<Rightarrow>
     (case DecodeUniversalLomont1 fuel bs1 6 0 of
        Inl e \<Rightarrow> Inl e
      | Inr (bitLen, bs2) \<Rightarrow>
          let sub = \<lparr>position = position bs2, data = data bs2\<rparr>;
              bs3 = bs2\<lparr>position := position bs2 + bitLen\<rparr>
          in if (ucast ctype :: u8) = 0 then
               (case ReadFixedHeaderNoLength fuel \<lparr>bitstream_F = sub, bitsPerSymbol_F = 0\<rparr> of
                  Inl e \<Rightarrow> Inl e
                | Inr s \<Rightarrow> Inr (\<lparr>codec = fixedState s, bitLength_SC = bitLen\<rparr>, bs3))
             else if (ucast ctype :: u8) = 1 then
               (case ReadArithmeticHeaderNoLength fuel (ArithmeticState_zero\<lparr>bitstream_A := sub\<rparr>) of
                  Inl e \<Rightarrow> Inl e
                | Inr (n, s) \<Rightarrow> Inr (\<lparr>codec = arithmeticState s, bitLength_SC = bitLen\<rparr>, bs3))
             else if (ucast ctype :: u8) = 2 then
               (case ReadHuffmanHeaderNoLength fuel (HuffmanState_zero\<lparr>bitstream_H := sub\<rparr>) of
                  Inl e \<Rightarrow> Inl e
                | Inr s \<Rightarrow>
                    Inr (\<lparr>codec = huffmanState (s\<lparr>byteLength_H := 0xFFFFFFFF\<rparr>),
                          bitLength_SC = bitLen\<rparr>, bs3))
             else
               (case ReadGolombHeaderNoLength fuel \<lparr>bitstream_G = sub, parameter = 0\<rparr> of
                  Inl e \<Rightarrow> Inl e
                | Inr s \<Rightarrow> Inr (\<lparr>codec = golombState s, bitLength_SC = bitLen\<rparr>, bs3))))"

definition GetLZCLDecision :: "nat \<Rightarrow> LZCLState_t \<Rightarrow> error + (u32 \<times> LZCLState_t)" where
  "GetLZCLDecision fuel state =
     (if useDecisionRuns state = 0 then
        (case DecodeLZCLSymbol fuel (decisionCodec state) of
           Inl e \<Rightarrow> Inl e
         | Inr (v, c) \<Rightarrow> Inr (v, state\<lparr>decisionCodec := c\<rparr>))
      else
        case (if curRun state = - 1 then
                (case DecodeLZCLSymbol fuel (decisionRunCodec state) of
                   Inl e \<Rightarrow> Inl e
                 | Inr (v, c) \<Rightarrow>
                     Inr (state\<lparr>curRun := initialValue state, runsLeft := v,
                                decisionCodec := c\<rparr>))
              else Inr state) of
          Inl e \<Rightarrow> Inl e
        | Inr state1 \<Rightarrow>
        (case (if runsLeft state1 = 0 then
                 (case DecodeLZCLSymbol fuel (decisionRunCodec state1) of
                    Inl e \<Rightarrow> Inl e
                  | Inr (v, c) \<Rightarrow>
                      Inr (state1\<lparr>curRun := curRun state1 XOR 1, runsLeft := v,
                                  decisionCodec := c\<rparr>))
               else Inr state1) of
           Inl e \<Rightarrow> Inl e
         | Inr state2 \<Rightarrow>
             Inr (curRun state2, state2\<lparr>runsLeft := runsLeft state2 - 1\<rparr>)))"

text \<open>\<^verbatim>\<open>GetLZCLDecodedToken\<close>; the result is \<open>(distance, length, state)\<close>.\<close>

definition GetLZCLDecodedToken ::
  "nat \<Rightarrow> LZCLState_t \<Rightarrow> error + (u32 \<times> u32 \<times> LZCLState_t)" where
  "GetLZCLDecodedToken fuel state =
     (if useTokens state = 0 then
        (case DecodeLZCLSymbol fuel (distanceCodec state) of
           Inl e \<Rightarrow> Inl e
         | Inr (distance1, c1) \<Rightarrow>
             let state1 = state\<lparr>distanceCodec := c1\<rparr> in
             (case DecodeLZCLSymbol fuel (lengthCodec state1) of
                Inl e \<Rightarrow> Inl e
              | Inr (v, c2) \<Rightarrow>
                  Inr (distance1, v + actualMinLength_CL state1, state1\<lparr>lengthCodec := c2\<rparr>)))
      else
        (case DecodeLZCLSymbol fuel (tokenCodec state) of
           Inl e \<Rightarrow> Inl e
         | Inr (token, c) \<Rightarrow>
             let state1 = state\<lparr>distanceCodec := c\<rparr> in
             if actualMaxDistance_CL state1 + 1 = 0 then Inl DivisionByZero
             else Inr (token mod (actualMaxDistance_CL state1 + 1),
                       token div (actualMaxDistance_CL state1 + 1) + actualMinLength_CL state1,
                       state1)))"

text \<open>
  \<^verbatim>\<open>DecompressLZCLStart\<close>. The state passed in is wiped by the \<^verbatim>\<open>memset\<close>, so the
  model builds the new state from \<open>LZCLState_zero\<close>. No statement of the function
  assigns \<^verbatim>\<open>useTokens\<close>.
\<close>

definition DecompressLZCLStart ::
  "nat \<Rightarrow> u8 list \<Rightarrow> i32 \<Rightarrow> u8 list \<Rightarrow> i32 \<Rightarrow> error + (u32 \<times> LZCLState_t)" where
  "DecompressLZCLStart fuel source sourceLength dest destLength =
     (let state0 = LZCLState_zero\<lparr>curRun := - 1, dest_CL := dest, destLength_CL := destLength,
                                  bitstream_CL := InitializeBitstream source\<rparr> in
      case DecodeUniversalLomont1 fuel (bitstream_CL state0) 6 0 of
        Inl e \<Rightarrow> Inl e
      | Inr (v1, bs1) \<Rightarrow>
     (case DecodeUniversalLomont1 fuel bs1 10 0 of
        Inl e \<Rightarrow> Inl e
      | Inr (v2, bs2) \<Rightarrow>
     (case DecodeUniversalLomont1 fuel bs2 2 0 of
        Inl e \<Rightarrow> Inl e
      | Inr (v3, bs3) \<Rightarrow>
          let state1 = state0\<lparr>byteLength_CL := v1, actualMaxDistance_CL := v2,
                              actualMinLength_CL := v3\<rparr>
          in
     (case ReadBitstream bs3 1 of
        Inl e \<Rightarrow> Inl e
      | Inr (runs, bs4) \<Rightarrow>
     (case (if runs = 0 then
              (case ReadLZCLItem fuel bs4 of
                 Inl e \<Rightarrow> Inl e
               | Inr (c, bs5) \<Rightarrow> Inr (state1\<lparr>useDecisionRuns := 0, decisionCodec := c\<rparr>, bs5))
            else
              (case ReadBitstream bs4 1 of
                 Inl e \<Rightarrow> Inl e
               | Inr (iv, bs5) \<Rightarrow>
              (case ReadLZCLItem fuel bs5 of
                 Inl e \<Rightarrow> Inl e
               | Inr (c, bs6) \<Rightarrow>
                   Inr (state1\<lparr>useDecisionRuns := 1, initialValue := iv, decisionCodec := c\<rparr>,
                        bs6)))) of
        Inl e \<Rightarrow> Inl e
      | Inr (state2, bs7) \<Rightarrow>
     (case ReadLZCLItem fuel bs7 of
        Inl e \<Rightarrow> Inl e
      | Inr (lit, bs8) \<Rightarrow>
          let state3 = state2\<lparr>literalCodec := lit\<rparr> in
     (case ReadBitstream bs8 1 of
        Inl e \<Rightarrow> Inl e
      | Inr (tokens, bs9) \<Rightarrow>
          if tokens = 0 then
            (case ReadLZCLItem fuel bs9 of
               Inl e \<Rightarrow> Inl e
             | Inr (c, bs10) \<Rightarrow>
                 Inr (byteLength_CL state3,
                      state3\<lparr>distanceCodec := c, bitstream_CL := bs10\<rparr>))
          else
            (case ReadLZCLItem fuel bs9 of
               Inl e \<Rightarrow> Inl e
             | Inr (c1, bs10) \<Rightarrow>
            (case ReadLZCLItem fuel bs10 of
               Inl e \<Rightarrow> Inl e
             | Inr (c2, bs11) \<Rightarrow>
                 Inr (byteLength_CL state3,
                      state3\<lparr>distanceCodec := c1, lengthCodec := c2,
                             bitstream_CL := bs11\<rparr>))))))))))"

text \<open>The copy loop of \<^verbatim>\<open>DecompressLZCLBlock\<close>, for the iterations that are left.\<close>

fun DecompressLZCLBlock_copy :: "nat \<Rightarrow> LZCLState_t \<Rightarrow> u32 \<Rightarrow> error + LZCLState_t" where
  "DecompressLZCLBlock_copy 0 state delta = Inr state"
| "DecompressLZCLBlock_copy (Suc n) state delta =
     (if destLength_CL state = 0 then Inl DivisionByZero
      else
        let src = unat ((byteIndex_CL state + delta) mod destLength_CL state);
            dst = unat (byteIndex_CL state mod destLength_CL state)
        in if \<not> src < length (dest_CL state) then Inl OutOfBoundsRead
           else if \<not> dst < length (dest_CL state) then Inl OutOfBoundsWrite
           else DecompressLZCLBlock_copy n
                  (state\<lparr>dest_CL := (dest_CL state)[dst := dest_CL state ! src],
                         byteIndex_CL := byteIndex_CL state + 1\<rparr>) delta)"

text \<open>The branch of \<^verbatim>\<open>DecompressLZCLBlock\<close> that copies a run, from the decoded
  \<open>distance\<close> and \<open>length\<close> on.\<close>

definition DecompressLZCLBlock_run ::
  "LZCLState_t \<Rightarrow> u32 \<Rightarrow> u32 \<Rightarrow> error + (u32 \<times> LZCLState_t)" where
  "DecompressLZCLBlock_run state distance len =
     (let delta = destLength_CL state - distance - 1 in
      case DecompressLZCLBlock_copy (unat len) state delta of
        Inl e \<Rightarrow> Inl e
      | Inr state' \<Rightarrow> Inr (len, state'))"

definition DecompressLZCLBlock :: "nat \<Rightarrow> LZCLState_t \<Rightarrow> error + (u32 \<times> LZCLState_t)" where
  "DecompressLZCLBlock fuel state =
     (if byteIndex_CL state \<ge> byteLength_CL state then Inr (CL_COMPRESSOR_END_TOKEN, state)
      else
        case GetLZCLDecision fuel state of
          Inl e \<Rightarrow> Inl e
        | Inr (decision, state1) \<Rightarrow>
            if decision = 0 then
              (case DecodeLZCLSymbol fuel (literalCodec state1) of
                 Inl e \<Rightarrow> Inl e
               | Inr (symbol, c) \<Rightarrow>
                   let state2 = state1\<lparr>literalCodec := c\<rparr> in
                   if destLength_CL state2 = 0 then Inl DivisionByZero
                   else
                     let dst = unat (byteIndex_CL state2 mod destLength_CL state2) in
                     if \<not> dst < length (dest_CL state2) then Inl OutOfBoundsWrite
                     else Inr (1, state2\<lparr>dest_CL := (dest_CL state2)[dst := ucast symbol],
                                          byteIndex_CL := byteIndex_CL state2 + 1\<rparr>))
            else
              (case GetLZCLDecodedToken fuel state1 of
                 Inl e \<Rightarrow> Inl e
               | Inr (distance, len, state2) \<Rightarrow> DecompressLZCLBlock_run state2 distance len))"

section \<open>The copy of a run, as specified\<close>

text \<open>
  For \<open>i = 0 \<dots> n - 1\<close>, copy \<open>dest[(byte_index + delta) mod dest_length]\<close> to
  \<open>dest[byte_index mod dest_length]\<close> and advance \<open>byte_index\<close>: writing \<open>byteIndex\<close>
  for the index the run starts at, step \<open>i\<close> works at \<open>byteIndex + i\<close>.
\<close>

definition copy_step :: "u32 \<Rightarrow> u32 \<Rightarrow> u32 \<Rightarrow> nat \<Rightarrow> u8 list \<Rightarrow> u8 list" where
  "copy_step destLength byteIndex delta i d =
     d[unat ((byteIndex + of_nat i) mod destLength)
         := d ! unat ((byteIndex + of_nat i + delta) mod destLength)]"

definition copy_run_spec :: "u32 \<Rightarrow> u32 \<Rightarrow> u32 \<Rightarrow> nat \<Rightarrow> u8 list \<Rightarrow> u8 list" where
  "copy_run_spec destLength byteIndex delta n d =
     fold (copy_step destLength byteIndex delta) [0..<n] d"

text \<open>
  An LZ77 stream of six bytes: 8 bits per symbol, 4 bits per token, minimum length 2,
  maximum distance 3, the literals 0x61 and 0x62, then a token for length 4 and
  distance 1; and the states \<^verbatim>\<open>DecompressLZ77Start\<close> and two calls of
  \<^verbatim>\<open>DecompressLZ77Block\<close> leave for it, over a destination of 8 bytes.
\<close>

definition lz77_stream_example :: "u8 list" where
  "lz77_stream_example = [0x0c, 0xe1, 0xa0, 0x00, 0x00, 0x3c, 0x00, 0x19, 0x84, 0xc5, 0x90]"

definition lz77_state_example :: LZ77State_t where
  "lz77_state_example =
     \<lparr>bitstream_77 = \<lparr>position = 61, data = lz77_stream_example\<rparr>,
      byteIndex_77 = 0, byteLength_77 = 6, dest_77 = [0, 0, 0, 0, 0, 0, 0, 0],
      destLength_77 = 8, actualMaxToken = 15, actualMaxDistance_77 = 3,
      actualMinLength_77 = 2, actualBitsPerSymbol = 8, actualBitsPerToken = 4\<rparr>"

definition lz77_state_example_ab :: LZ77State_t where
  "lz77_state_example_ab =
     lz77_state_example
       \<lparr>bitstream_77 := \<lparr>position = 79, data = lz77_stream_example\<rparr>,
         byteIndex_77 := 2, dest_77 := [0x61, 0x62, 0, 0, 0, 0, 0, 0]\<rparr>"

text \<open>
  An LZCL stream of six bytes: maximum distance 1, minimum length 2, plain
  decisions 0, 0, 1 in a fixed sub-codec of 1 bit, the literals 0x61 and 0x62 in a
  fixed sub-codec of 8 bits, the token-mode bit 0 and one token, 5, in a fixed
  sub-codec of 3 bits; with the states of the decoder over a destination of 8
  bytes: after \<^verbatim>\<open>DecompressLZCLStart\<close>, after one and two calls of
  \<^verbatim>\<open>DecompressLZCLBlock\<close>, after the decision of the third call, and after it.
\<close>

definition lzcl_stream_token :: "u8 list" where
  "lzcl_stream_token = [0x0c, 0x00, 0x50, 0x0e, 0x04, 0x28, 0xec, 0x2c, 0x40, 0x39, 0x50]"

definition lzcl_fixed_codec :: "u32 \<Rightarrow> u32 \<Rightarrow> u32 \<Rightarrow> LZCLSubCodec_t" where
  "lzcl_fixed_codec pos bits len =
     \<lparr>codec = fixedState \<lparr>bitstream_F = \<lparr>position = pos, data = lzcl_stream_token\<rparr>,
                           bitsPerSymbol_F = bits\<rparr>,
      bitLength_SC = len\<rparr>"

definition lzcl_state_token :: LZCLState_t where
  "lzcl_state_token =
     \<lparr>actualMinLength_CL = 2, actualMaxDistance_CL = 1, byteLength_CL = 6, byteIndex_CL = 0,
      bitstream_CL = \<lparr>position = 84, data = lzcl_stream_token\<rparr>, useDecisionRuns = 0,
      decisionCodec = lzcl_fixed_codec 35 1 7, literalCodec = lzcl_fixed_codec 51 8 20,
      useTokens = 0, distanceCodec = lzcl_fixed_codec 81 3 7, lengthCodec = LZCLSubCodec_zero,
      initialValue = 0, dest_CL = [0, 0, 0, 0, 0, 0, 0, 0], destLength_CL = 8,
      curRun = - 1, runsLeft = 0\<rparr>"

definition lzcl_state_token_a :: LZCLState_t where
  "lzcl_state_token_a =
     lzcl_state_token\<lparr>byteIndex_CL := 1, decisionCodec := lzcl_fixed_codec 36 1 7,
                       literalCodec := lzcl_fixed_codec 59 8 20,
                       dest_CL := [0x61, 0, 0, 0, 0, 0, 0, 0]\<rparr>"

definition lzcl_state_token_ab :: LZCLState_t where
  "lzcl_state_token_ab =
     lzcl_state_token\<lparr>byteIndex_CL := 2, decisionCodec := lzcl_fixed_codec 37 1 7,
                       literalCodec := lzcl_fixed_codec 67 8 20,
                       dest_CL := [0x61, 0x62, 0, 0, 0, 0, 0, 0]\<rparr>"

definition lzcl_state_token_decided :: LZCLState_t where
  "lzcl_state_token_decided = lzcl_state_token_ab\<lparr>decisionCodec := lzcl_fixed_codec 38 1 7\<rparr>"

definition lzcl_state_token_copied :: LZCLState_t where
  "lzcl_state_token_copied =
     lzcl_state_token_decided\<lparr>byteIndex_CL := 4, distanceCodec := lzcl_fixed_codec 84 3 7\<rparr>"

section \<open>Facts about the bitstream reader\<close>

lemma and_7_take_bit: "(pos::u32) AND 7 = take_bit 3 pos"
proof -
  have "(7::u32) = mask 3" by (simp add: mask_eq_exp_minus_1)
  then show ?thesis by (simp add: take_bit_eq_mask)
qed

lemma unat_and_7: "unat ((pos::u32) AND 7) = unat pos mod 8"
  by (simp add: and_7_take_bit take_bit_eq_mod unat_mod)

lemma unat_7_minus: "unat (7 - ((pos::u32) AND 7)) = 7 - unat pos mod 8"
proof -
  have "(pos AND 7) \<le> 7" by (simp add: word_and_le1)
  then have "unat (7 - (pos AND 7)) = unat (7::u32) - unat (pos AND 7)"
    by (simp add: unat_sub)
  then show ?thesis by (simp add: unat_and_7)
qed

lemma byte_bit_extract:
  "drop_bit k (ucast (b::u8) :: u32) AND 1 = (if bit b k then 1 else 0)"
  apply (rule bit_word_eqI)
  apply (auto simp add: bit_simps dest: bit_imp_le_length)
  subgoal for n by (cases n) auto
  done

lemma read_step_bit:
  "drop_bit (unat (7 - ((pos::u32) AND 7))) (ucast (d ! unat (pos div 8)) :: u32) AND 1
     = of_nat (stream_bit d (unat pos))"
  by (simp add: unat_7_minus byte_bit_extract stream_bit_def unat_div)

lemma shift_or_bit:
  "push_bit 1 (v::u32) OR of_nat (stream_bit d n) = 2 * v + of_nat (stream_bit d n)"
proof -
  have "push_bit 1 v AND (1::u32) = 0"
    by (simp add: and_one_eq mod_2_eq_odd)
  then have "push_bit 1 v AND (of_nat (stream_bit d n) :: u32) = 0"
    by (simp add: stream_bit_def)
  then have "push_bit 1 v + (of_nat (stream_bit d n) :: u32)
      = push_bit 1 v OR of_nat (stream_bit d n)"
    by (rule disjunctive_add_eq_or)
  then show ?thesis by (simp add: push_bit_eq_mult mult.commute)
qed

lemma word_add_Suc: "(p::u32) + of_nat (Suc i) = p + 1 + of_nat i"
  by simp

lemma bits_value_Suc:
  "bits_value d p (Suc k) = stream_bit d (unat p) * 2 ^ k + bits_value d (p + 1) k"
  unfolding bits_value_def sum.lessThan_Suc_shift word_add_Suc by simp

lemma bits_value_less: "bits_value d p k < 2 ^ k"
proof (induction k arbitrary: p)
  case 0
  then show ?case by (simp add: bits_value_def)
next
  case (Suc k)
  have "bits_value d (p + 1) k < 2 ^ k" by (rule Suc)
  then show ?case unfolding bits_value_Suc by (simp add: stream_bit_def)
qed

lemma read_in_bounds_Suc:
  "read_in_bounds d p (Suc k) \<longleftrightarrow> unat p div 8 < length d \<and> read_in_bounds d (p + 1) k"
proof -
  have alt: "read_in_bounds d q n \<longleftrightarrow> (\<forall>i<n. unat (q + of_nat i) div 8 < length d)" for q n
    by (auto simp add: read_in_bounds_def)
  show ?thesis
    unfolding alt All_less_Suc2 word_add_Suc by simp
qed

text \<open>Where the position does not wrap, the word position is the integer one.\<close>

lemma stream_position_no_wrap:
  "unat (p::u32) + i < 2 ^ 32 \<Longrightarrow> unat (p + of_nat i) = unat p + i"
  by (simp add: unat_word_ariths unat_of_nat take_bit_eq_mod)

lemma ReadBitstream_loop_value:
  "read_in_bounds (data bs) (position bs) n \<Longrightarrow>
   ReadBitstream_loop n bs v =
     Inr (v * 2 ^ n + of_nat (bits_value (data bs) (position bs) n),
          bs\<lparr>position := position bs + of_nat n\<rparr>)"
proof (induction n arbitrary: bs v)
  case 0
  then show ?case by (simp add: bits_value_def)
next
  case (Suc n)
  from Suc.prems have inb: "unat (position bs div 8) < length (data bs)"
    and rest: "read_in_bounds (data bs) (position bs + 1) n"
    by (simp_all add: read_in_bounds_Suc unat_div)
  let ?bs = "bs\<lparr>position := position bs + 1\<rparr>"
  from rest have "read_in_bounds (data ?bs) (position ?bs) n" by simp
  note IH = Suc.IH [OF this]
  have "ReadBitstream_loop (Suc n) bs v =
      ReadBitstream_loop n ?bs (2 * v + of_nat (stream_bit (data bs) (unat (position bs))))"
    using inb by (simp only: ReadBitstream_loop.simps Let_def read_step_bit shift_or_bit if_True)
  also have "\<dots> = Inr (v * 2 ^ Suc n + of_nat (bits_value (data bs) (position bs) (Suc n)),
          bs\<lparr>position := position bs + of_nat (Suc n)\<rparr>)"
    unfolding IH bits_value_Suc by (simp add: algebra_simps)
  finally show ?case .
qed

text \<open>A read that returns has moved the position by the bit count and nothing else.\<close>

lemma ReadBitstream_loop_frame:
  "ReadBitstream_loop n bs v = Inr (r, bs') \<Longrightarrow> bs' = bs\<lparr>position := position bs + of_nat n\<rparr>"
proof (induction n arbitrary: bs v)
  case 0
  then show ?case by simp
next
  case (Suc n)
  from Suc.prems have "ReadBitstream_loop n (bs\<lparr>position := position bs + 1\<rparr>)
      (push_bit 1 v OR (drop_bit (unat (7 - (position bs AND 7)))
         (ucast (data bs ! unat (position bs div 8)) :: u32) AND 1)) = Inr (r, bs')"
    by (simp add: Let_def split: if_splits)
  from Suc.IH [OF this] show ?case by (simp add: add.assoc add.commute)
qed

lemma ReadBitstream_frame:
  "ReadBitstream bs k = Inr (r, bs') \<Longrightarrow> bs' = bs\<lparr>position := position bs + k\<rparr>"
  unfolding ReadBitstream_def by (drule ReadBitstream_loop_frame) simp

lemma ReadBitstream_in_bounds:
  assumes "read_in_bounds (data bs) (position bs) (unat k)"
  shows "ReadBitstream bs k =
     Inr (of_nat (bits_value (data bs) (position bs) (unat k)), bs\<lparr>position := position bs + k\<rparr>)"
  unfolding ReadBitstream_def using ReadBitstream_loop_value [OF assms, of 0] by simp

section \<open>Bitstream reader: the claims\<close>

text \<open>
  C4. For a bitstream over the bytes \<open>data\<close>, a start position \<open>p\<close> and \<open>k \<le> 32\<close>,
  with every bit of the read inside the data, \<open>ReadBitstream\<close> returns the number
  \<open>b\<^sub>0 * 2^(k-1) + ... + b\<^sub>k\<^sub>-\<^sub>1\<close>, where \<open>b\<^sub>i\<close> is bit \<open>7 - (p+i) mod 8\<close> of byte
  \<open>(p+i) div 8\<close> (this is \<open>bits_value\<close>; the position \<open>p+i\<close> is the 32-bit position
  the code keeps, equal to the integer \<open>p+i\<close> by \<open>stream_position_no_wrap\<close> as long
  as it stays below \<open>2^32\<close>), and it advances the position by exactly \<open>k\<close>, leaving
  the data alone. The witness is the read of 8 bits at position 0 of a stream
  whose first byte is 0xA5, which returns 0xA5.
\<close>

theorem ReadBitstream_msb_first:
  assumes "unat k \<le> 32"
    and "read_in_bounds (data bs) (position bs) (unat k)"
  shows "\<exists>v. ReadBitstream bs k = Inr (v, bs\<lparr>position := position bs + k\<rparr>)
           \<and> unat v = bits_value (data bs) (position bs) (unat k)"
proof -
  let ?n = "bits_value (data bs) (position bs) (unat k)"
  have "?n < 2 ^ unat k" by (rule bits_value_less)
  also have "(2::nat) ^ unat k \<le> 2 ^ 32"
    using assms(1) by (intro power_increasing) simp_all
  finally have "unat (of_nat ?n :: u32) = ?n"
    by (simp add: unat_of_nat take_bit_eq_mod)
  with ReadBitstream_in_bounds [OF assms(2)] show ?thesis by simp
qed

theorem ReadBitstream_msb_first_witness:
  "ReadBitstream \<lparr>position = 0, data = [0xA5]\<rparr> 8 = Inr (0xA5, \<lparr>position = 8, data = [0xA5]\<rparr>)
   \<and> bits_value [0xA5] 0 8 = 0xA5"
proof -
  have k: "unat (8::u32) \<le> 32" by simp
  have b: "read_in_bounds (data \<lparr>position = 0, data = [0xA5]\<rparr>)
      (position \<lparr>position = 0, data = [0xA5]\<rparr>) (unat (8::u32))"
    by code_simp
  have v: "bits_value [0xA5] 0 8 = 0xA5" by code_simp
  from ReadBitstream_msb_first [OF k b] v show ?thesis
    by (auto simp add: word_unat_eq_iff)
qed

text \<open>
  C9. For an in-bounds position \<open>pos\<close>, \<open>ReadFromBitstreamPosition\<close> returns the
  value \<open>ReadBitstream\<close> returns with the cursor at \<open>pos\<close>, writes \<open>pos + k\<close> back into
  the external position, and hands back the bitstream with its own position and
  its data as they were, wherever the internal cursor stood.
\<close>

theorem ReadFromBitstreamPosition_frame:
  assumes "read_in_bounds (data bs) pos (unat k)"
  shows "\<exists>v. ReadBitstream (bs\<lparr>position := pos\<rparr>) k = Inr (v, bs\<lparr>position := pos + k\<rparr>)
           \<and> ReadFromBitstreamPosition bs pos k = Inr (v, pos + k, bs)"
proof -
  from assms have "read_in_bounds (data (bs\<lparr>position := pos\<rparr>)) (position (bs\<lparr>position := pos\<rparr>)) (unat k)"
    by simp
  from ReadBitstream_in_bounds [OF this] show ?thesis
    by (simp add: ReadFromBitstreamPosition_def)
qed

theorem ReadFromBitstreamPosition_frame_witness:
  "ReadFromBitstreamPosition \<lparr>position = 3, data = [0xA5, 0x81]\<rparr> 4 8
     = Inr (0x58, 12, \<lparr>position = 3, data = [0xA5, 0x81]\<rparr>)"
proof -
  have b: "read_in_bounds (data \<lparr>position = 3, data = [0xA5, 0x81]\<rparr>) 4 (unat (8::u32))"
    by code_simp
  have v: "ReadBitstream (\<lparr>position = 3, data = [0xA5, 0x81]\<rparr>\<lparr>position := 4\<rparr>) 8
      = Inr (0x58, \<lparr>position = 12, data = [0xA5, 0x81]\<rparr>)"
    by code_simp
  from ReadFromBitstreamPosition_frame [OF b] v show ?thesis by auto
qed

lemma ReadBitstream_loop_error:
  "ReadBitstream_loop n bs v = Inl e \<Longrightarrow> e = OutOfBoundsRead"
  by (induction n arbitrary: bs v) (auto simp add: Let_def split: if_splits)

lemma ReadBitstream_error: "ReadBitstream bs k = Inl e \<Longrightarrow> e = OutOfBoundsRead"
  unfolding ReadBitstream_def by (rule ReadBitstream_loop_error)

section \<open>Universal code: the claim\<close>

lemma next_chunkSize_max:
  "next_chunkSize c d = (if d \<noteq> 0 then max 1 (c + d) else c)"
  by (simp add: next_chunkSize_def Let_def max_def)

lemma next_chunkSize_pos: "1 \<le> c \<Longrightarrow> 1 \<le> next_chunkSize c d"
  by (simp add: next_chunkSize_max)

lemma push_bit_chunk: "push_bit n (chunk::u32) = of_nat (unat chunk * 2 ^ n)"
  by (simp add: push_bit_eq_mult)

text \<open>The shift of the specified loop never decreases.\<close>

lemma lomont1_spec_shift_mono:
  "lomont1_spec d bs vn sh c r \<Longrightarrow> sh \<le> fst (snd (snd r))"
  by (induction rule: lomont1_spec.induct) simp_all

text \<open>A chunk size outside the \<^verbatim>\<open>int\<close> range makes the run undefined.\<close>

lemma lomont1_spec_big_chunk:
  assumes "lomont1_spec d bs vn sh c (n, bs', shl, cl)" and "2 ^ 31 \<le> c"
  shows "\<not> lomont1_defined d shl cl"
  using assms(1)
proof (cases rule: lomont1_spec.cases)
  case lomont1_exit
  with assms(2) show ?thesis by (simp add: lomont1_defined_def)
next
  case (lomont1_repeat b bs1 chunk bs2)
  from lomont1_spec_shift_mono [OF lomont1_repeat(4)] have "sh + nat c \<le> shl" by simp
  moreover from assms(2) have "32 \<le> nat c" by simp
  ultimately have "32 \<le> shl" by simp
  then show ?thesis by (simp add: lomont1_defined_def)
qed

lemma Lomont1_loop_sound:
  "1 \<le> c \<Longrightarrow> 0 \<le> sh \<Longrightarrow>
   DecodeUniversalLomont1_loop fuel bs (of_nat vn) sh c d = Inr (v, bs') \<Longrightarrow>
   \<exists>n shl cl. lomont1_spec d bs vn (nat sh) c (n, bs', shl, cl) \<and> lomont1_defined d shl cl
      \<and> v = of_nat n"
proof (induction fuel arbitrary: bs vn sh c)
  case 0
  then show ?case by simp
next
  case (Suc fuel)
  from Suc.prems(3) obtain b bs1 where r1: "ReadBitstream bs 1 = Inr (b, bs1)"
    by (auto split: sum.splits)
  with Suc.prems(3) obtain chunk bs2 where r2: "ReadBitstream bs1 (word_of_int c) = Inr (chunk, bs2)"
    by (auto split: sum.splits)
  from Suc.prems(3) r1 r2 have ck: "sh < 32" "int_in_range (sh + c)"
    "d \<noteq> 0 \<longrightarrow> int_in_range (c + d)"
    by (auto split: if_splits)
  let ?vn = "vn + unat chunk * 2 ^ nat sh"
  have val: "of_nat vn + push_bit (nat sh) chunk = (of_nat ?vn :: u32)"
    by (simp add: push_bit_chunk)
  show ?case
  proof (cases "b = 0")
    case True
    with Suc.prems(3) r1 r2 ck Suc.prems(2) have "v = of_nat ?vn" "bs' = bs2"
      by (auto simp add: Let_def val split: if_splits)
    moreover from r1 r2 True have "lomont1_spec d bs vn (nat sh) c (?vn, bs2, nat sh, c)"
      by (auto intro: lomont1_exit)
    moreover from ck Suc.prems(2) have "lomont1_defined d (nat sh) c"
      by (simp add: lomont1_defined_def int_in_range_def)
    ultimately show ?thesis by blast
  next
    case False
    with Suc.prems(3) r1 r2 ck Suc.prems(2)
    have rec: "DecodeUniversalLomont1_loop fuel bs2 (of_nat ?vn) (sh + c) (next_chunkSize c d) d
        = Inr (v, bs')"
      by (auto simp add: Let_def val split: if_splits)
    have "1 \<le> next_chunkSize c d" using Suc.prems(1) by (rule next_chunkSize_pos)
    moreover have "0 \<le> sh + c" using Suc.prems(1,2) by simp
    ultimately obtain n shl cl
      where n: "lomont1_spec d bs2 ?vn (nat (sh + c)) (next_chunkSize c d) (n, bs', shl, cl)"
        and df: "lomont1_defined d shl cl" and vn: "v = of_nat n"
      using Suc.IH [OF _ _ rec] by blast
    have "nat (sh + c) = nat sh + nat c" using Suc.prems(1,2) by simp
    with n have "lomont1_spec d bs2 ?vn (nat sh + nat c)
        (if d \<noteq> 0 then max 1 (c + d) else c) (n, bs', shl, cl)"
      by (simp add: next_chunkSize_max)
    with r1 r2 False have "lomont1_spec d bs vn (nat sh) c (n, bs', shl, cl)"
      by (auto intro: lomont1_repeat)
    with vn df show ?thesis by blast
  qed
qed

text \<open>
  What the code does on a run of the specified loop: the run's value where the
  run is defined, an undefined shift or a signed overflow where it is not.
\<close>

lemma Lomont1_loop_complete:
  "lomont1_spec d bs vn sh c r \<Longrightarrow> 1 \<le> c \<Longrightarrow> - (2 ^ 31) \<le> d \<Longrightarrow>
   33 \<le> fuel + min sh 32 \<Longrightarrow>
   (if lomont1_defined d (fst (snd (snd r))) (snd (snd (snd r)))
    then DecodeUniversalLomont1_loop fuel bs (of_nat vn) (int sh) c d
           = Inr (of_nat (fst r), fst (snd r))
    else DecodeUniversalLomont1_loop fuel bs (of_nat vn) (int sh) c d = Inl UndefinedShift
       \<or> DecodeUniversalLomont1_loop fuel bs (of_nat vn) (int sh) c d = Inl SignedOverflow)"
proof (induction arbitrary: fuel rule: lomont1_spec.induct)
  case (lomont1_exit bs bs1 chunkSize chunk bs2 val shift)
  then obtain f where f: "fuel = Suc f" by (cases fuel) auto
  from lomont1_exit show ?case
    unfolding f by (auto simp add: Let_def int_in_range_def push_bit_chunk lomont1_defined_def)
next
  case (lomont1_repeat bs b bs1 chunkSize chunk bs2 val shift r)
  then obtain f where f: "fuel = Suc f" by (cases fuel) auto
  obtain n bs' shl cl where r: "r = (n, bs', shl, cl)" by (cases r) auto
  let ?c' = "next_chunkSize chunkSize d"
  note run = lomont1_repeat.hyps(4) [unfolded next_chunkSize_max [symmetric] r]
  from lomont1_spec_shift_mono [OF run] have mono: "shift + nat chunkSize \<le> shl" by simp
  let ?L = "DecodeUniversalLomont1_loop (Suc f) bs (of_nat val) (int shift) chunkSize d"
  show ?case
  proof (cases "shift < 32 \<and> int shift + chunkSize < 2 ^ 31
      \<and> (d \<noteq> 0 \<longrightarrow> chunkSize + d < 2 ^ 31)")
    case True
    have c1: "1 \<le> ?c'" using lomont1_repeat.prems(1) by (rule next_chunkSize_pos)
    from lomont1_repeat.prems(1) have "1 \<le> nat chunkSize" by simp
    with lomont1_repeat.prems(3) True f have fl: "33 \<le> f + min (shift + nat chunkSize) 32"
      by (simp add: min_def)
    note IH = lomont1_repeat.IH [unfolded next_chunkSize_max [symmetric],
        OF c1 lomont1_repeat.prems(2) fl]
    have e: "int (shift + nat chunkSize) = int shift + chunkSize"
      using lomont1_repeat.prems(1) by simp
    have eq: "?L = DecodeUniversalLomont1_loop f bs2 (of_nat (val + unat chunk * 2 ^ shift))
        (int (shift + nat chunkSize)) ?c' d"
      using lomont1_repeat.hyps(1,2,3) lomont1_repeat.prems(1,2) True
      by (auto simp add: Let_def int_in_range_def push_bit_chunk e)
    show ?thesis unfolding f eq by (rule IH)
  next
    case False
    have nd: "\<not> lomont1_defined d shl cl"
    proof (cases "shift < 32 \<and> int shift + chunkSize < 2 ^ 31")
      case False
      with mono lomont1_repeat.prems(1) show ?thesis by (auto simp add: lomont1_defined_def)
    next
      case True
      with False have "d \<noteq> 0" "2 ^ 31 \<le> chunkSize + d" by auto
      then have "2 ^ 31 \<le> ?c'" by (simp add: next_chunkSize_max)
      from lomont1_spec_big_chunk [OF run this] show ?thesis .
    qed
    have "?L = Inl UndefinedShift \<or> ?L = Inl SignedOverflow"
      using lomont1_repeat.hyps(1,2,3) lomont1_repeat.prems(1,2) False
      by (auto simp add: Let_def int_in_range_def)
    with nd show ?thesis unfolding f r by simp
  qed
qed

lemma Lomont1_loop_fuel:
  "1 \<le> c \<Longrightarrow> 0 \<le> sh \<Longrightarrow> 33 \<le> fuel + nat (min sh 32) \<Longrightarrow>
   DecodeUniversalLomont1_loop fuel bs v sh c d \<noteq> Inl OutOfFuel"
proof (induction fuel arbitrary: bs v sh c)
  case 0
  then show ?case by simp
next
  case (Suc fuel)
  show ?case
  proof (cases "sh < 32")
    case False
    then show ?thesis by (auto split: sum.splits dest: ReadBitstream_error)
  next
    case True
    have "1 \<le> next_chunkSize c d" using Suc.prems(1) by (rule next_chunkSize_pos)
    moreover have "0 \<le> sh + c" using Suc.prems(1,2) by simp
    moreover have "33 \<le> fuel + nat (min (sh + c) 32)" using Suc.prems True by simp
    ultimately have "DecodeUniversalLomont1_loop fuel bs2 v2 (sh + c) (next_chunkSize c d) d
        \<noteq> Inl OutOfFuel" for bs2 v2
      by (rule Suc.IH)
    then show ?thesis by (auto simp add: Let_def split: sum.splits dest: ReadBitstream_error)
  qed
qed

lemma chunk_clamp_bounds:
  "1 \<le> c \<Longrightarrow> d < 0 \<Longrightarrow>
   1 \<le> ((\<lambda>x. next_chunkSize x d) ^^ n) c
   \<and> ((\<lambda>x. next_chunkSize x d) ^^ n) c \<le> max 1 (c - int n)"
  by (induction n) (auto simp add: next_chunkSize_max max_def split: if_splits)

text \<open>An iteration of the specified loop, for chunks of 6 bits, that adds nothing.\<close>

lemma lomont1_spec_zero_chunk:
  assumes "ReadBitstream bs 1 = Inr (1, bs1)" and "ReadBitstream bs1 6 = Inr (0, bs2)"
    and "lomont1_spec 0 bs2 0 (sh + 6) 6 r"
  shows "lomont1_spec 0 bs 0 sh 6 r"
proof -
  have n: "(1::u32) \<noteq> 0" by simp
  from assms(2) have c: "ReadBitstream bs1 (word_of_int 6) = Inr (0, bs2)" by simp
  from assms(3) have "lomont1_spec 0 bs2 (0 + unat (0::u32) * 2 ^ sh) (sh + nat 6)
      (if (0::int) \<noteq> 0 then max 1 (6 + 0) else 6) r"
    by simp
  with assms(1) n c show ?thesis by (rule lomont1_repeat)
qed

text \<open>
  C3, as the code has it. For every bitstream, every initial \<open>chunkSize \<ge> 1\<close> and
  every \<open>deltaChunk\<close> (a C \<^verbatim>\<open>int\<close>), \<open>DecodeUniversalLomont1\<close> returns a value
  exactly when the specified loop \<open>lomont1_spec\<close>, started from value 0 and shift 0
  and stopping after the first iteration whose continuation bit was 0, yields one
  with a last iteration that C defines (\<open>lomont1_defined\<close>: a shift below 32,
  \<open>shift + chunkSize\<close> and \<open>chunkSize + deltaChunk\<close> below \<open>2^31\<close>): the value
  returned is then the loop's value modulo \<open>2^32\<close> and the stream is left where
  the loop leaves it. On a run of the loop whose last iteration is not defined the
  code ends in an undefined shift or a signed overflow. The code needs at most 33
  iterations. For a negative \<open>deltaChunk\<close> (such as -1 and -7) the chunk size after
  any number of updates is at least 1, and is exactly 1 from the update number
  \<open>chunkSize - 1\<close> on.
\<close>

theorem DecodeUniversalLomont1_is_spec_loop:
  assumes "1 \<le> chunkSize" and "int_in_range deltaChunk" and "33 \<le> fuel"
  shows "(DecodeUniversalLomont1 fuel bs chunkSize deltaChunk = Inr (v, bs') \<longleftrightarrow>
            (\<exists>n sh c. lomont1_spec deltaChunk bs 0 0 chunkSize (n, bs', sh, c)
                \<and> lomont1_defined deltaChunk sh c \<and> v = of_nat n))
       \<and> (lomont1_spec deltaChunk bs 0 0 chunkSize (m, bs'', sh', c')
            \<and> \<not> lomont1_defined deltaChunk sh' c' \<longrightarrow>
            DecodeUniversalLomont1 fuel bs chunkSize deltaChunk = Inl UndefinedShift
          \<or> DecodeUniversalLomont1 fuel bs chunkSize deltaChunk = Inl SignedOverflow)
       \<and> DecodeUniversalLomont1 fuel bs chunkSize deltaChunk \<noteq> Inl OutOfFuel
       \<and> (deltaChunk < 0 \<longrightarrow>
            1 \<le> ((\<lambda>x. next_chunkSize x deltaChunk) ^^ k) chunkSize
            \<and> (nat chunkSize \<le> Suc k \<longrightarrow>
                 ((\<lambda>x. next_chunkSize x deltaChunk) ^^ k) chunkSize = 1))"
proof (intro conjI impI iffI)
  assume "DecodeUniversalLomont1 fuel bs chunkSize deltaChunk = Inr (v, bs')"
  then have "DecodeUniversalLomont1_loop fuel bs (of_nat 0) 0 chunkSize deltaChunk = Inr (v, bs')"
    by (simp add: DecodeUniversalLomont1_def)
  from Lomont1_loop_sound [OF assms(1) _ this]
  show "\<exists>n sh c. lomont1_spec deltaChunk bs 0 0 chunkSize (n, bs', sh, c)
      \<and> lomont1_defined deltaChunk sh c \<and> v = of_nat n"
    by simp
next
  assume "\<exists>n sh c. lomont1_spec deltaChunk bs 0 0 chunkSize (n, bs', sh, c)
      \<and> lomont1_defined deltaChunk sh c \<and> v = of_nat n"
  then obtain n sh c where run: "lomont1_spec deltaChunk bs 0 0 chunkSize (n, bs', sh, c)"
    and df: "lomont1_defined deltaChunk sh c" and v: "v = of_nat n"
    by blast
  from assms(2) have d: "- (2 ^ 31) \<le> deltaChunk" by (simp add: int_in_range_def)
  from assms(3) have fl: "33 \<le> fuel + min 0 32" by simp
  from Lomont1_loop_complete [OF run assms(1) d fl] df v
  show "DecodeUniversalLomont1 fuel bs chunkSize deltaChunk = Inr (v, bs')"
    by (simp add: DecodeUniversalLomont1_def)
next
  assume a: "lomont1_spec deltaChunk bs 0 0 chunkSize (m, bs'', sh', c')
      \<and> \<not> lomont1_defined deltaChunk sh' c'"
  from assms(2) have d: "- (2 ^ 31) \<le> deltaChunk" by (simp add: int_in_range_def)
  from assms(3) have fl: "33 \<le> fuel + min 0 32" by simp
  from Lomont1_loop_complete [OF a [THEN conjunct1] assms(1) d fl] a
  show "DecodeUniversalLomont1 fuel bs chunkSize deltaChunk = Inl UndefinedShift
      \<or> DecodeUniversalLomont1 fuel bs chunkSize deltaChunk = Inl SignedOverflow"
    by (simp add: DecodeUniversalLomont1_def)
next
  from assms(1,3) show "DecodeUniversalLomont1 fuel bs chunkSize deltaChunk \<noteq> Inl OutOfFuel"
    unfolding DecodeUniversalLomont1_def by (intro Lomont1_loop_fuel) simp_all
next
  assume "deltaChunk < 0"
  from chunk_clamp_bounds [OF assms(1) this, of k]
  show "1 \<le> ((\<lambda>x. next_chunkSize x deltaChunk) ^^ k) chunkSize" by simp
next
  assume "deltaChunk < 0" and "nat chunkSize \<le> Suc k"
  with chunk_clamp_bounds [OF assms(1), of deltaChunk k]
  show "((\<lambda>x. next_chunkSize x deltaChunk) ^^ k) chunkSize = 1"
    by (auto simp add: max_def split: if_splits)
qed

theorem DecodeUniversalLomont1_is_spec_loop_witness:
  "DecodeUniversalLomont1 33 \<lparr>position = 0, data = [0xA9, 0x80]\<rparr> 4 (- 1)
     = Inr (53, \<lparr>position = 9, data = [0xA9, 0x80]\<rparr>)
   \<and> (\<exists>n sh c. lomont1_spec (- 1) \<lparr>position = 0, data = [0xA9, 0x80]\<rparr> 0 0 4
            (n, \<lparr>position = 9, data = [0xA9, 0x80]\<rparr>, sh, c)
          \<and> lomont1_defined (- 1) sh c \<and> (53::u32) = of_nat n)
   \<and> ((\<lambda>x. next_chunkSize x (- 1)) ^^ 3) 4 = 1
   \<and> 1 \<le> ((\<lambda>x. next_chunkSize x (- 7)) ^^ 1) 14"
proof (intro conjI)
  let ?bs = "\<lparr>position = 0, data = [0xA9, 0x80]\<rparr>"
  let ?bs' = "\<lparr>position = 9, data = [0xA9, 0x80]\<rparr>"
  show r: "DecodeUniversalLomont1 33 ?bs 4 (- 1) = Inr (53, ?bs')"
    by code_simp
  have c: "(1::int) \<le> 4" "(1::int) \<le> 14" by simp_all
  have d: "int_in_range (- 1)" "int_in_range (- 7)" by (simp_all add: int_in_range_def)
  have f: "(33::nat) \<le> 33" by simp
  have n: "(- 1::int) < 0" "(- 7::int) < 0" "nat 4 \<le> Suc 3" by simp_all
  note t = DecodeUniversalLomont1_is_spec_loop [OF c(1) d(1) f]
  from t [of ?bs 53 ?bs', THEN conjunct1, THEN iffD1, OF r]
  show "\<exists>n sh c. lomont1_spec (- 1) ?bs 0 0 4 (n, ?bs', sh, c)
      \<and> lomont1_defined (- 1) sh c \<and> (53::u32) = of_nat n" .
  from t [THEN conjunct2, THEN conjunct2, THEN conjunct2, THEN mp, OF n(1),
      THEN conjunct2, THEN mp, OF n(3)]
  show "((\<lambda>x. next_chunkSize x (- 1)) ^^ 3) 4 = 1" .
  from DecodeUniversalLomont1_is_spec_loop [OF c(2) d(2) f,
      THEN conjunct2, THEN conjunct2, THEN conjunct2, THEN mp, OF n(2), THEN conjunct1]
  show "1 \<le> ((\<lambda>x. next_chunkSize x (- 7)) ^^ 1) 14" .
qed

text \<open>
  The claim as stated, for every code and every \<open>deltaChunk\<close>, fails on a code of
  seven chunks, where the specified loop yields \<open>21 * 2^36\<close> and the code shifts a
  32-bit value by 36, and on a \<open>deltaChunk\<close> of \<open>2^31 - 1\<close>, where the specified loop
  yields 1 and \<^verbatim>\<open>chunkSize += deltaChunk\<close> overflows.
\<close>

theorem DecodeUniversalLomont1_shift_counterexample:
  "lomont1_spec 0 \<lparr>position = 0, data = lomont1_stream_long\<rparr> 0 0 6
     (21 * 2 ^ 36, \<lparr>position = 49, data = lomont1_stream_long\<rparr>, 36, 6)
   \<and> \<not> lomont1_defined 0 36 6
   \<and> DecodeUniversalLomont1 33 \<lparr>position = 0, data = lomont1_stream_long\<rparr> 6 0
       = Inl UndefinedShift
   \<and> lomont1_spec 2147483647 \<lparr>position = 0, data = [0x40]\<rparr> 0 0 1
       (1, \<lparr>position = 2, data = [0x40]\<rparr>, 0, 1)
   \<and> \<not> lomont1_defined 2147483647 0 1
   \<and> DecodeUniversalLomont1 33 \<lparr>position = 0, data = [0x40]\<rparr> 1 2147483647
       = Inl SignedOverflow"
proof (intro conjI)
  let ?d = lomont1_stream_long
  have b: "ReadBitstream \<lparr>position = 0, data = ?d\<rparr> 1 = Inr (1, \<lparr>position = 1, data = ?d\<rparr>)"
    "ReadBitstream \<lparr>position = 7, data = ?d\<rparr> 1 = Inr (1, \<lparr>position = 8, data = ?d\<rparr>)"
    "ReadBitstream \<lparr>position = 14, data = ?d\<rparr> 1 = Inr (1, \<lparr>position = 15, data = ?d\<rparr>)"
    "ReadBitstream \<lparr>position = 21, data = ?d\<rparr> 1 = Inr (1, \<lparr>position = 22, data = ?d\<rparr>)"
    "ReadBitstream \<lparr>position = 28, data = ?d\<rparr> 1 = Inr (1, \<lparr>position = 29, data = ?d\<rparr>)"
    "ReadBitstream \<lparr>position = 35, data = ?d\<rparr> 1 = Inr (1, \<lparr>position = 36, data = ?d\<rparr>)"
    "ReadBitstream \<lparr>position = 42, data = ?d\<rparr> 1 = Inr (0, \<lparr>position = 43, data = ?d\<rparr>)"
    by code_simp+
  have c: "ReadBitstream \<lparr>position = 1, data = ?d\<rparr> 6 = Inr (0, \<lparr>position = 7, data = ?d\<rparr>)"
    "ReadBitstream \<lparr>position = 8, data = ?d\<rparr> 6 = Inr (0, \<lparr>position = 14, data = ?d\<rparr>)"
    "ReadBitstream \<lparr>position = 15, data = ?d\<rparr> 6 = Inr (0, \<lparr>position = 21, data = ?d\<rparr>)"
    "ReadBitstream \<lparr>position = 22, data = ?d\<rparr> 6 = Inr (0, \<lparr>position = 28, data = ?d\<rparr>)"
    "ReadBitstream \<lparr>position = 29, data = ?d\<rparr> 6 = Inr (0, \<lparr>position = 35, data = ?d\<rparr>)"
    "ReadBitstream \<lparr>position = 36, data = ?d\<rparr> 6 = Inr (0, \<lparr>position = 42, data = ?d\<rparr>)"
    "ReadBitstream \<lparr>position = 43, data = ?d\<rparr> 6 = Inr (21, \<lparr>position = 49, data = ?d\<rparr>)"
    by code_simp+
  from c(7) have "ReadBitstream \<lparr>position = 43, data = ?d\<rparr> (word_of_int 6)
      = Inr (21, \<lparr>position = 49, data = ?d\<rparr>)"
    by simp
  with b(7) have "lomont1_spec 0 \<lparr>position = 42, data = ?d\<rparr> 0 36 6
      (0 + unat (21::u32) * 2 ^ 36, \<lparr>position = 49, data = ?d\<rparr>, 36, 6)"
    by (rule lomont1_exit)
  then have "lomont1_spec 0 \<lparr>position = 42, data = ?d\<rparr> 0 (30 + 6) 6
      (21 * 2 ^ 36, \<lparr>position = 49, data = ?d\<rparr>, 36, 6)"
    by simp
  from lomont1_spec_zero_chunk [OF b(6) c(6) this]
  have "lomont1_spec 0 \<lparr>position = 35, data = ?d\<rparr> 0 (24 + 6) 6
      (21 * 2 ^ 36, \<lparr>position = 49, data = ?d\<rparr>, 36, 6)"
    by simp
  from lomont1_spec_zero_chunk [OF b(5) c(5) this]
  have "lomont1_spec 0 \<lparr>position = 28, data = ?d\<rparr> 0 (18 + 6) 6
      (21 * 2 ^ 36, \<lparr>position = 49, data = ?d\<rparr>, 36, 6)"
    by simp
  from lomont1_spec_zero_chunk [OF b(4) c(4) this]
  have "lomont1_spec 0 \<lparr>position = 21, data = ?d\<rparr> 0 (12 + 6) 6
      (21 * 2 ^ 36, \<lparr>position = 49, data = ?d\<rparr>, 36, 6)"
    by simp
  from lomont1_spec_zero_chunk [OF b(3) c(3) this]
  have "lomont1_spec 0 \<lparr>position = 14, data = ?d\<rparr> 0 (6 + 6) 6
      (21 * 2 ^ 36, \<lparr>position = 49, data = ?d\<rparr>, 36, 6)"
    by simp
  from lomont1_spec_zero_chunk [OF b(2) c(2) this]
  have "lomont1_spec 0 \<lparr>position = 7, data = ?d\<rparr> 0 (0 + 6) 6
      (21 * 2 ^ 36, \<lparr>position = 49, data = ?d\<rparr>, 36, 6)"
    by simp
  from lomont1_spec_zero_chunk [OF b(1) c(1) this]
  show "lomont1_spec 0 \<lparr>position = 0, data = lomont1_stream_long\<rparr> 0 0 6
     (21 * 2 ^ 36, \<lparr>position = 49, data = lomont1_stream_long\<rparr>, 36, 6)" .
  show "\<not> lomont1_defined 0 36 6" by (simp add: lomont1_defined_def)
  show "DecodeUniversalLomont1 33 \<lparr>position = 0, data = lomont1_stream_long\<rparr> 6 0
       = Inl UndefinedShift"
    by code_simp
  have "ReadBitstream \<lparr>position = 0, data = [0x40]\<rparr> 1
      = Inr (0, \<lparr>position = 1, data = [0x40]\<rparr>)"
    by code_simp
  moreover have "ReadBitstream \<lparr>position = 1, data = [0x40]\<rparr> (word_of_int 1)
      = Inr (1, \<lparr>position = 2, data = [0x40]\<rparr>)"
    by code_simp
  ultimately have "lomont1_spec 2147483647 \<lparr>position = 0, data = [0x40]\<rparr> 0 0 1
      (0 + unat (1::u32) * 2 ^ 0, \<lparr>position = 2, data = [0x40]\<rparr>, 0, 1)"
    by (rule lomont1_exit)
  then show "lomont1_spec 2147483647 \<lparr>position = 0, data = [0x40]\<rparr> 0 0 1
      (1, \<lparr>position = 2, data = [0x40]\<rparr>, 0, 1)"
    by simp
  show "\<not> lomont1_defined 2147483647 0 1" by (simp add: lomont1_defined_def)
  show "DecodeUniversalLomont1 33 \<lparr>position = 0, data = [0x40]\<rparr> 1 2147483647
      = Inl SignedOverflow"
    by code_simp
qed

section \<open>Arithmetic bit reader: the claim\<close>

text \<open>What \<open>ReadArithmeticBistream\<close> does on any state.\<close>

lemma ReadArithmeticBistream_cases:
  "ReadArithmeticBistream s k =
     (if bitsRead s + 1 < bitLength_A s then
        (case ReadBitstream (bitstream_A s) k of
           Inl e \<Rightarrow> Inl e
         | Inr (v, bs) \<Rightarrow> Inr (v, s\<lparr>bitsRead := bitsRead s + 1, bitstream_A := bs\<rparr>))
      else Inr (0, s\<lparr>bitsRead := bitsRead s + 1\<rparr>))"
  by (simp add: ReadArithmeticBistream_def Let_def)

text \<open>
  C1. The claim is that \<open>ReadArithmeticBistream\<close> with \<open>bitCount = 1\<close> returns the
  next stream bit whenever the number of bits already read is below \<open>bitLength\<close>. The
  code increments \<open>bitsRead\<close> before it compares, so it delivers the bit only when
  \<open>bitsRead + 1 < bitLength\<close>: in a region of one bit, whose only bit is 1, the first
  call has read 0 bits, 0 is below 1, and the call returns 0 without moving the
  cursor. The bit at index \<open>bitLength - 1\<close> of the region is never delivered.
\<close>

theorem ReadArithmeticBistream_drops_last_bit:
  "ReadArithmeticBistream
     \<lparr>bitstream_A = \<lparr>position = 0, data = [0x80]\<rparr>, lowValue = 0, highValue = 0x7FFFFFFF,
      total = 1, scaling = 0, symbolMin = 0, tableStartBitPosition = 0, buffer = 0,
      bitLength_A = 1, bitsRead = 0\<rparr> 1
   = Inr (0,
     \<lparr>bitstream_A = \<lparr>position = 0, data = [0x80]\<rparr>, lowValue = 0, highValue = 0x7FFFFFFF,
      total = 1, scaling = 0, symbolMin = 0, tableStartBitPosition = 0, buffer = 0,
      bitLength_A = 1, bitsRead = 1\<rparr>)
   \<and> ReadBitstream \<lparr>position = 0, data = [0x80]\<rparr> 1 = Inr (1, \<lparr>position = 1, data = [0x80]\<rparr>)"
  by code_simp

section \<open>Huffman decoder: the claims\<close>

lemma ReadFromBitstreamPosition_Inr:
  "ReadFromBitstreamPosition bs pos k = Inr (v, pos', bs') \<Longrightarrow>
   bs' = bs \<and> pos' = pos + k \<and> ReadBitstream (bs\<lparr>position := pos\<rparr>) k = Inr (v, bs\<lparr>position := pos + k\<rparr>)"
  by (auto simp add: ReadFromBitstreamPosition_def Let_def split: sum.splits dest!: ReadBitstream_frame)

lemma ReadFromBitstreamPosition_error:
  "ReadFromBitstreamPosition bs pos k = Inl e \<Longrightarrow> e = OutOfBoundsRead"
  by (auto simp add: ReadFromBitstreamPosition_def Let_def split: sum.splits dest: ReadBitstream_error)

text \<open>A read of \<open>k < 32\<close> bits is below \<open>2 ^ k\<close>.\<close>

lemma ReadBitstream_loop_bound:
  "ReadBitstream_loop n bs v = Inr (r, bs') \<Longrightarrow> read_in_bounds (data bs) (position bs) n"
proof (induction n arbitrary: bs v)
  case 0
  then show ?case by (simp add: read_in_bounds_def)
next
  case (Suc n)
  from Suc.prems have inb: "unat (position bs div 8) < length (data bs)"
    by (simp add: Let_def split: if_splits)
  with Suc.prems have "ReadBitstream_loop n (bs\<lparr>position := position bs + 1\<rparr>)
      (push_bit 1 v OR (drop_bit (unat (7 - (position bs AND 7)))
         (ucast (data bs ! unat (position bs div 8)) :: u32) AND 1)) = Inr (r, bs')"
    by (simp add: Let_def)
  from Suc.IH [OF this] inb show ?case
    by (simp add: read_in_bounds_Suc unat_div)
qed

lemma length_32: "LENGTH(32) = 32" by simp

lemma ReadBitstream_less:
  assumes "ReadBitstream bs k = Inr (r, bs')" and "unat k < 32"
  shows "r < 2 ^ unat k"
proof -
  from assms(1) have "read_in_bounds (data bs) (position bs) (unat k)"
    unfolding ReadBitstream_def by (rule ReadBitstream_loop_bound)
  from ReadBitstream_in_bounds [OF this] assms(1)
  have r: "r = of_nat (bits_value (data bs) (position bs) (unat k))" by simp
  let ?n = "bits_value (data bs) (position bs) (unat k)"
  have n: "?n < 2 ^ unat k" by (rule bits_value_less)
  have p: "(2::nat) ^ unat k < 2 ^ 32"
    using assms(2) by (intro power_strict_increasing) simp_all
  from n p assms(2) have "take_bit 32 ?n = ?n" "take_bit 32 ((2::nat) ^ unat k) = 2 ^ unat k"
    by (simp_all add: take_bit_nat_eq_self)
  with n have "(of_nat ?n :: u32) < of_nat (2 ^ unat k)"
    by (simp only: word_of_nat_less_iff length_32) 
  then show ?thesis unfolding r by simp
qed

lemma unat_ucast_u8: "unat (ucast (b::u8) :: u32) = unat b"
proof -
  have "unat b < 2 ^ 8" using unsigned_less [of b] by simp
  then have "unat b < 2 ^ 32" by simp
  then show ?thesis by (simp add: unsigned_ucast_eq take_bit_nat_eq_self)
qed

lemma word_less_exp_31:
  assumes "n < 32" and "(r::u32) < 2 ^ n"
  shows "r < 2 ^ 31"
proof -
  from assms have "uint r < 2 ^ n" by (simp add: word_2p_lem word_size)
  also have "(2::int) ^ n \<le> 2 ^ 31" using assms(1) by (intro power_increasing) simp_all
  finally have "uint r < 2 ^ 31" .
  then show ?thesis by (subst word_2p_lem) (simp_all add: word_size)
qed

lemma DecompressHuffmanSymbol_first_frame:
  "DecompressHuffmanSymbol_first n bs a f = Inr (a', f', bs') \<Longrightarrow> data bs' = data bs"
proof (induction n arbitrary: bs a f)
  case 0
  then show ?case by simp
next
  case (Suc n)
  then show ?case
    by (auto split: sum.splits dest!: ReadBitstream_frame)
qed

lemma DecompressHuffmanSymbol_walk_fields:
  "DecompressHuffmanSymbol_walk fuel s ti a f = Inr (r, s') \<Longrightarrow>
   byteLength_H s' = byteLength_H s \<and> bitsPerSymbol_H s' = bitsPerSymbol_H s
   \<and> tablePosition s' = tablePosition s \<and> minCodewordLength s' = minCodewordLength s
   \<and> maxCodewordLength s' = maxCodewordLength s
   \<and> bitsPerCodelengthCount s' = bitsPerCodelengthCount s"
proof (induction fuel arbitrary: s ti a f)
  case 0
  then show ?case by simp
next
  case (Suc fuel)
  then show ?case
    by (fastforce simp add: Let_def split: sum.splits if_splits)
qed

lemma DecompressHuffmanSymbol_walk_symbol:
  "DecompressHuffmanSymbol_walk fuel s ti a f = Inr (r, s') \<Longrightarrow>
   \<exists>bs pos bs'. ReadBitstream bs (ucast (bitsPerSymbol_H s)) = Inr (r, bs')"
proof (induction fuel arbitrary: s ti a f)
  case 0
  then show ?case by simp
next
  case (Suc fuel)
  show ?case
  proof (cases "ReadFromBitstreamPosition (bitstream_H s) ti (ucast (bitsPerCodelengthCount s))")
    case (Inl e)
    with Suc.prems show ?thesis by simp
  next
    case (Inr t)
    obtain n ti1 bs1 where t: "t = (n, ti1, bs1)" by (cases t)
    show ?thesis
    proof (cases "n > 0 \<and> a - f < n")
      case True
      with Suc.prems Inr t obtain ti3 bs2 where
        "ReadFromBitstreamPosition bs1 (ti1 + (a - f) * ucast (bitsPerSymbol_H s))
           (ucast (bitsPerSymbol_H s)) = Inr (r, ti3, bs2)"
        by (auto simp add: Let_def split: sum.splits)
      from ReadFromBitstreamPosition_Inr [OF this] show ?thesis by blast
    next
      case False
      with Suc.prems Inr t obtain b bs2 where
        w: "DecompressHuffmanSymbol_walk fuel (s\<lparr>bitstream_H := bs2\<rparr>)
          (ti1 + n * ucast (bitsPerSymbol_H s)) (2 * a + b) (push_bit 1 (f + n)) = Inr (r, s')"
        by (auto simp add: Let_def split: sum.splits)
      from Suc.IH [OF w] show ?thesis by simp
    qed
  qed
qed

lemma DecompressHuffmanSymbol_cases:
  assumes "DecompressHuffmanSymbol fuel s = Inr (r, s')"
  shows "(byteLength_H s = 0 \<longrightarrow> r = CL_COMPRESSOR_END_TOKEN \<and> s' = s)
       \<and> (byteLength_H s \<noteq> 0 \<and> byteLength_H s \<noteq> 0xFFFFFFFF \<longrightarrow>
            byteLength_H s' = byteLength_H s - 1)
       \<and> (byteLength_H s = 0xFFFFFFFF \<longrightarrow> byteLength_H s' = 0xFFFFFFFF)
       \<and> bitsPerSymbol_H s' = bitsPerSymbol_H s
       \<and> (byteLength_H s \<noteq> 0 \<and> bitsPerSymbol_H s < 32 \<longrightarrow>
            r < 2 ^ unat (bitsPerSymbol_H s) \<and> r \<noteq> CL_COMPRESSOR_END_TOKEN)"
proof (cases "byteLength_H s = 0")
  case True
  with assms show ?thesis by (simp add: DecompressHuffmanSymbol_def)
next
  case False
  let ?s1 = "if byteLength_H s \<noteq> 0xFFFFFFFF then s\<lparr>byteLength_H := byteLength_H s - 1\<rparr> else s"
  from assms False obtain a f bs where
    w: "DecompressHuffmanSymbol_walk fuel (?s1\<lparr>bitstream_H := bs\<rparr>) (tablePosition ?s1) a f = Inr (r, s')"
    by (auto simp add: DecompressHuffmanSymbol_def Let_def split: sum.splits)
  from DecompressHuffmanSymbol_walk_fields [OF w]
  have fields: "byteLength_H s' = byteLength_H ?s1" "bitsPerSymbol_H s' = bitsPerSymbol_H s"
    by (simp_all split: if_splits)
  have small: "r < 2 ^ unat (bitsPerSymbol_H s) \<and> r \<noteq> CL_COMPRESSOR_END_TOKEN"
    if b: "bitsPerSymbol_H s < 32"
  proof -
    from DecompressHuffmanSymbol_walk_symbol [OF w] obtain bs0 bs1 where
      rd: "ReadBitstream bs0 (ucast (bitsPerSymbol_H s)) = Inr (r, bs1)"
      by (auto split: if_splits)
    from b have u: "unat (ucast (bitsPerSymbol_H s) :: u32) = unat (bitsPerSymbol_H s)"
      "unat (bitsPerSymbol_H s) < 32"
      by (simp_all add: word_less_nat_alt unat_ucast_u8)
    from ReadBitstream_less [OF rd] u have lt: "r < 2 ^ unat (bitsPerSymbol_H s)" by simp
    from u(2) lt have "r < 2 ^ 31" by (rule word_less_exp_31)
    then have "r \<noteq> CL_COMPRESSOR_END_TOKEN" by (auto simp add: CL_COMPRESSOR_END_TOKEN_def)
    with lt show ?thesis by simp
  qed
  from False fields small show ?thesis by auto
qed


lemma DecompressHuffmanSymbol_calls_open:
  "DecompressHuffmanSymbol_calls fuel n s = Inr (rs, s') \<Longrightarrow> byteLength_H s = 0xFFFFFFFF \<Longrightarrow>
   byteLength_H s' = 0xFFFFFFFF \<and> length rs = n
   \<and> (bitsPerSymbol_H s < 32 \<longrightarrow> CL_COMPRESSOR_END_TOKEN \<notin> set rs)"
proof (induction n arbitrary: s rs)
  case 0
  then show ?case by simp
next
  case (Suc n)
  from Suc.prems(1) obtain r s1 rs1 where
    c: "DecompressHuffmanSymbol fuel s = Inr (r, s1)"
    and cs: "DecompressHuffmanSymbol_calls fuel n s1 = Inr (rs1, s')"
    and rs: "rs = r # rs1"
    by (auto split: sum.splits)
  from DecompressHuffmanSymbol_cases [OF c] Suc.prems(2)
  have s1: "byteLength_H s1 = 0xFFFFFFFF" "bitsPerSymbol_H s1 = bitsPerSymbol_H s"
    and r: "bitsPerSymbol_H s < 32 \<longrightarrow> r \<noteq> CL_COMPRESSOR_END_TOKEN"
    by auto
  from Suc.IH [OF cs s1(1)] s1(2) r rs show ?case by auto
qed

lemma DecompressHuffmanSymbol_calls_tracked:
  "DecompressHuffmanSymbol_calls fuel n s = Inr (rs, s') \<Longrightarrow> byteLength_H s \<noteq> 0xFFFFFFFF \<Longrightarrow>
   n \<le> unat (byteLength_H s) \<Longrightarrow>
   byteLength_H s' = byteLength_H s - of_nat n
   \<and> (bitsPerSymbol_H s < 32 \<longrightarrow> CL_COMPRESSOR_END_TOKEN \<notin> set rs)"
proof (induction n arbitrary: s rs)
  case 0
  then show ?case by simp
next
  case (Suc n)
  from Suc.prems(1) obtain r s1 rs1 where
    c: "DecompressHuffmanSymbol fuel s = Inr (r, s1)"
    and cs: "DecompressHuffmanSymbol_calls fuel n s1 = Inr (rs1, s')"
    and rs: "rs = r # rs1"
    by (auto split: sum.splits)
  from Suc.prems(3) have nz: "byteLength_H s \<noteq> 0" by (auto simp add: unat_eq_0)
  from DecompressHuffmanSymbol_cases [OF c] Suc.prems(2) nz
  have s1: "byteLength_H s1 = byteLength_H s - 1" "bitsPerSymbol_H s1 = bitsPerSymbol_H s"
    and r: "bitsPerSymbol_H s < 32 \<longrightarrow> r \<noteq> CL_COMPRESSOR_END_TOKEN"
    by auto
  from nz have u: "unat (byteLength_H s - 1) = unat (byteLength_H s) - 1"
    by (simp add: unat_minus_one)
  with Suc.prems(3) s1 have le: "n \<le> unat (byteLength_H s1)" by simp
  have ne: "byteLength_H s1 \<noteq> 0xFFFFFFFF"
  proof
    assume "byteLength_H s1 = 0xFFFFFFFF"
    with s1(1) have e: "byteLength_H s - 1 = 0xFFFFFFFF" by simp
    have "byteLength_H s = (byteLength_H s - 1) + 1" by simp
    also have "\<dots> = 0" unfolding e by simp
    finally show False using nz by simp
  qed
  from Suc.IH [OF cs ne le] s1 r rs show ?case by auto
qed


text \<open>
  C7. As stated the claim fails: a call whose entry \<open>byteLength\<close> is not 0 returns
  the table symbol it decodes, and with 32 bits per symbol that symbol can be
  0xFFFFFFFF, the value of the end token (the counterexample is the first call on
  \<open>huffman_stream_wide\<close>). What holds: a call whose entry \<open>byteLength\<close> is 0
  returns the end token and leaves the state as it is; a call that decodes a symbol
  with \<open>byteLength\<close> neither 0 nor 0xFFFFFFFF decrements \<open>byteLength\<close> by exactly
  one, so that after \<open>n \<le> byteLength\<close> calls it is \<open>byteLength - n\<close>; with
  \<open>byteLength = 0xFFFFFFFF\<close> it is never changed, for any number of calls; and
  whenever \<open>bitsPerSymbol\<close> is below 32 a call whose entry \<open>byteLength\<close> is not 0
  never returns the end token.
\<close>

theorem DecompressHuffmanSymbol_end_token:
  "(byteLength_H s = 0 \<longrightarrow> DecompressHuffmanSymbol fuel s = Inr (CL_COMPRESSOR_END_TOKEN, s))
   \<and> (DecompressHuffmanSymbol fuel s = Inr (r, s') \<longrightarrow>
        (byteLength_H s \<noteq> 0 \<and> byteLength_H s \<noteq> 0xFFFFFFFF \<longrightarrow>
           byteLength_H s' = byteLength_H s - 1)
      \<and> (byteLength_H s = 0xFFFFFFFF \<longrightarrow> byteLength_H s' = 0xFFFFFFFF)
      \<and> (byteLength_H s \<noteq> 0 \<and> bitsPerSymbol_H s < 32 \<longrightarrow> r \<noteq> CL_COMPRESSOR_END_TOKEN))
   \<and> (DecompressHuffmanSymbol_calls fuel n s = Inr (rs, s'') \<longrightarrow>
        (byteLength_H s = 0xFFFFFFFF \<longrightarrow>
           byteLength_H s'' = 0xFFFFFFFF \<and> length rs = n
           \<and> (bitsPerSymbol_H s < 32 \<longrightarrow> CL_COMPRESSOR_END_TOKEN \<notin> set rs))
      \<and> (byteLength_H s \<noteq> 0xFFFFFFFF \<and> n \<le> unat (byteLength_H s) \<longrightarrow>
           byteLength_H s'' = byteLength_H s - of_nat n
           \<and> (bitsPerSymbol_H s < 32 \<longrightarrow> CL_COMPRESSOR_END_TOKEN \<notin> set rs)))"
proof (intro conjI impI)
  assume "byteLength_H s = 0"
  then show "DecompressHuffmanSymbol fuel s = Inr (CL_COMPRESSOR_END_TOKEN, s)"
    by (simp add: DecompressHuffmanSymbol_def)
next
  assume c: "DecompressHuffmanSymbol fuel s = Inr (r, s')"
  {
    assume "byteLength_H s \<noteq> 0 \<and> byteLength_H s \<noteq> 0xFFFFFFFF"
    with DecompressHuffmanSymbol_cases [OF c] show "byteLength_H s' = byteLength_H s - 1"
      by blast
  next
    assume "byteLength_H s = 0xFFFFFFFF"
    with DecompressHuffmanSymbol_cases [OF c] show "byteLength_H s' = 0xFFFFFFFF"
      by blast
  next
    assume "byteLength_H s \<noteq> 0 \<and> bitsPerSymbol_H s < 32"
    with DecompressHuffmanSymbol_cases [OF c] show "r \<noteq> CL_COMPRESSOR_END_TOKEN"
      by blast
  }
next
  assume cs: "DecompressHuffmanSymbol_calls fuel n s = Inr (rs, s'')"
  {
    assume b: "byteLength_H s = 0xFFFFFFFF"
    from DecompressHuffmanSymbol_calls_open [OF cs b]
    show "byteLength_H s'' = 0xFFFFFFFF" and "length rs = n" by simp_all
    assume "bitsPerSymbol_H s < 32"
    with DecompressHuffmanSymbol_calls_open [OF cs b]
    show "CL_COMPRESSOR_END_TOKEN \<notin> set rs" by simp
  next
    assume b: "byteLength_H s \<noteq> 0xFFFFFFFF \<and> n \<le> unat (byteLength_H s)"
    then have b1: "byteLength_H s \<noteq> 0xFFFFFFFF" and b2: "n \<le> unat (byteLength_H s)"
      by simp_all
    from DecompressHuffmanSymbol_calls_tracked [OF cs b1 b2]
    show "byteLength_H s'' = byteLength_H s - of_nat n" by simp
    assume "bitsPerSymbol_H s < 32"
    with DecompressHuffmanSymbol_calls_tracked [OF cs b1 b2]
    show "CL_COMPRESSOR_END_TOKEN \<notin> set rs" by simp
  }
qed

theorem DecompressHuffmanSymbol_end_token_witness:
  "DecompressHuffmanSymbol 33 (huffman_state_aba\<lparr>byteLength_H := 0\<rparr>)
     = Inr (CL_COMPRESSOR_END_TOKEN, huffman_state_aba\<lparr>byteLength_H := 0\<rparr>)
   \<and> DecompressHuffmanSymbol 33 huffman_state_aba
     = Inr (0x61, huffman_state_aba\<lparr>bitstream_H := \<lparr>position = 44, data = huffman_stream_aba\<rparr>,
                                     byteLength_H := 2\<rparr>)
   \<and> (0x61::u32) \<noteq> CL_COMPRESSOR_END_TOKEN
   \<and> DecompressHuffmanSymbol_calls 33 3 (huffman_state_aba\<lparr>byteLength_H := 0xFFFFFFFF\<rparr>)
     = Inr ([0x61, 0x62, 0x61],
            huffman_state_aba\<lparr>bitstream_H := \<lparr>position = 46, data = huffman_stream_aba\<rparr>,
                              byteLength_H := 0xFFFFFFFF\<rparr>)
   \<and> CL_COMPRESSOR_END_TOKEN \<notin> set [0x61, 0x62, 0x61 :: u32]
   \<and> DecompressHuffmanSymbol_calls 33 3 huffman_state_aba
     = Inr ([0x61, 0x62, 0x61],
            huffman_state_aba\<lparr>bitstream_H := \<lparr>position = 46, data = huffman_stream_aba\<rparr>,
                              byteLength_H := 0\<rparr>)"
proof -
  let ?s = huffman_state_aba
  let ?s1 = "?s\<lparr>bitstream_H := \<lparr>position = 44, data = huffman_stream_aba\<rparr>, byteLength_H := 2\<rparr>"
  let ?so = "?s\<lparr>byteLength_H := 0xFFFFFFFF\<rparr>"
  let ?so3 = "?s\<lparr>bitstream_H := \<lparr>position = 46, data = huffman_stream_aba\<rparr>,
      byteLength_H := 0xFFFFFFFF\<rparr>"
  let ?s3 = "?s\<lparr>bitstream_H := \<lparr>position = 46, data = huffman_stream_aba\<rparr>, byteLength_H := 0\<rparr>"
  have z: "byteLength_H (?s\<lparr>byteLength_H := 0\<rparr>) = 0" by simp
  have c1: "DecompressHuffmanSymbol 33 ?s = Inr (0x61, ?s1)" by code_simp
  have c2: "DecompressHuffmanSymbol_calls 33 3 ?so = Inr ([0x61, 0x62, 0x61], ?so3)" by code_simp
  have c3: "DecompressHuffmanSymbol_calls 33 3 ?s = Inr ([0x61, 0x62, 0x61], ?s3)" by code_simp
  have f: "byteLength_H ?s \<noteq> 0 \<and> bitsPerSymbol_H ?s < 32" "byteLength_H ?so = 0xFFFFFFFF"
    "bitsPerSymbol_H ?so < 32" "byteLength_H ?s \<noteq> 0xFFFFFFFF \<and> 3 \<le> unat (byteLength_H ?s)"
    by (simp_all add: huffman_state_aba_def)
  have t1: "DecompressHuffmanSymbol 33 (?s\<lparr>byteLength_H := 0\<rparr>)
      = Inr (CL_COMPRESSOR_END_TOKEN, ?s\<lparr>byteLength_H := 0\<rparr>)"
    using DecompressHuffmanSymbol_end_token [of "?s\<lparr>byteLength_H := 0\<rparr>" 33] z by blast
  have t2: "(0x61::u32) \<noteq> CL_COMPRESSOR_END_TOKEN"
    using DecompressHuffmanSymbol_end_token [of ?s 33 "0x61" ?s1] c1 f(1) by blast
  have t3: "CL_COMPRESSOR_END_TOKEN \<notin> set [0x61, 0x62, 0x61 :: u32]"
    using DecompressHuffmanSymbol_end_token [of ?so 33 _ _ 3 "[0x61, 0x62, 0x61]" ?so3] c2 f(2,3)
    by blast
  from t1 c1 t2 c2 t3 c3 show ?thesis by blast
qed

theorem DecompressHuffmanSymbol_end_token_counterexample:
  "DecompressHuffmanStart 33 huffman_state_aba huffman_stream_wide 8 = Inr huffman_state_wide
   \<and> byteLength_H huffman_state_wide \<noteq> 0
   \<and> DecompressHuffmanSymbol 33 huffman_state_wide
     = Inr (CL_COMPRESSOR_END_TOKEN,
            huffman_state_wide\<lparr>bitstream_H := \<lparr>position = 62, data = huffman_stream_wide\<rparr>,
                               byteLength_H := 0\<rparr>)"
  by code_simp

lemma ReadBitstream_no_write: "ReadBitstream bs k \<noteq> Inl OutOfBoundsWrite"
  using ReadBitstream_error [of bs k OutOfBoundsWrite] by auto

lemma ReadFromBitstreamPosition_no_write:
  "ReadFromBitstreamPosition bs pos k \<noteq> Inl OutOfBoundsWrite"
  using ReadFromBitstreamPosition_error [of bs pos k OutOfBoundsWrite] by auto

lemma Lomont1_loop_no_write:
  "DecodeUniversalLomont1_loop fuel bs v sh c d \<noteq> Inl OutOfBoundsWrite"
proof (induction fuel arbitrary: bs v sh c)
  case 0
  then show ?case by auto
next
  case (Suc fuel)
  then show ?case
    by (auto simp add: Let_def ReadBitstream_no_write split: sum.splits if_splits)
qed

lemma Lomont1_no_write:
  "DecodeUniversalLomont1 fuel bs c d \<noteq> Inl OutOfBoundsWrite"
  unfolding DecodeUniversalLomont1_def by (rule Lomont1_loop_no_write)

lemma ParseHuffmanTable_symbols_no_write:
  "ParseHuffmanTable_symbols n bs bps \<noteq> Inl OutOfBoundsWrite"
  by (induction n arbitrary: bs) (auto simp add: ReadBitstream_no_write split: sum.splits)

lemma ParseHuffmanTable_lengths_no_write:
  "ParseHuffmanTable_lengths n bs bpc bps \<noteq> Inl OutOfBoundsWrite"
  by (induction n arbitrary: bs)
    (auto simp add: ReadBitstream_no_write ParseHuffmanTable_symbols_no_write split: sum.splits)

lemma ParseHuffmanTable_no_write: "ParseHuffmanTable s \<noteq> Inl OutOfBoundsWrite"
  by (auto simp add: ParseHuffmanTable_def Let_def ParseHuffmanTable_lengths_no_write
      simp del: ParseHuffmanTable_lengths.simps split: sum.splits)

lemma ReadHuffmanHeaderNoLength_no_write:
  "ReadHuffmanHeaderNoLength fuel s \<noteq> Inl OutOfBoundsWrite"
  by (auto simp add: ReadHuffmanHeaderNoLength_def Let_def Lomont1_no_write
      ParseHuffmanTable_no_write split: sum.splits)

lemma DecompressHuffmanStart_no_write:
  "DecompressHuffmanStart fuel s src n \<noteq> Inl OutOfBoundsWrite"
  by (auto simp add: DecompressHuffmanStart_def Lomont1_no_write
      ReadHuffmanHeaderNoLength_no_write split: sum.splits)

lemma DecompressHuffmanSymbol_first_no_write:
  "DecompressHuffmanSymbol_first n bs a f \<noteq> Inl OutOfBoundsWrite"
  by (induction n arbitrary: bs a f) (auto simp add: ReadBitstream_no_write split: sum.splits)

lemma DecompressHuffmanSymbol_walk_no_write:
  "DecompressHuffmanSymbol_walk fuel s ti a f \<noteq> Inl OutOfBoundsWrite"
proof (induction fuel arbitrary: s ti a f)
  case 0
  then show ?case by auto
next
  case (Suc fuel)
  then show ?case
    by (auto simp add: Let_def ReadBitstream_no_write ReadFromBitstreamPosition_no_write
        split: sum.splits if_splits)
qed

lemma DecompressHuffmanSymbol_no_write:
  "DecompressHuffmanSymbol fuel s \<noteq> Inl OutOfBoundsWrite"
  by (auto simp add: DecompressHuffmanSymbol_def Let_def DecompressHuffmanSymbol_first_no_write
      DecompressHuffmanSymbol_walk_no_write split: sum.splits if_splits)

lemma unat_Suc_less: "(b::u32) < d \<Longrightarrow> unat (b + 1) = Suc (unat b)"
proof -
  assume "b < d"
  then have "unat b < unat d" by (simp add: word_less_nat_alt)
  moreover have "unat d < 2 ^ 32" using unsigned_less [of d] by simp
  ultimately show ?thesis by (simp add: unat_word_ariths take_bit_eq_mod)
qed

lemma DecompressHuffman_loop_safe:
  "unat destLength \<le> length dest \<Longrightarrow>
   DecompressHuffman_loop fuel st dest destLength bi \<noteq> Inl OutOfBoundsWrite"
proof (induction fuel st dest destLength bi rule: DecompressHuffman_loop.induct)
  case (1 fuel state dest destLength byteIndex)
  show ?case
  proof (cases "byteLength_H state \<noteq> 0 \<and> byteIndex < destLength")
    case False
    then show ?thesis by (subst DecompressHuffman_loop.simps) auto
  next
    case True
    then have lt: "unat byteIndex < length dest"
      using "1.prems" by (simp add: word_less_nat_alt)
    show ?thesis
    proof (cases "DecompressHuffmanSymbol fuel state")
      case (Inl e)
      with True show ?thesis
        using DecompressHuffmanSymbol_no_write [of fuel state]
        by (subst DecompressHuffman_loop.simps) auto
    next
      case (Inr p)
      obtain symbol state' where p: "p = (symbol, state')" by (cases p)
      show ?thesis
      proof (cases "symbol = CL_COMPRESSOR_END_TOKEN")
        case e: True
        with True Inr p show ?thesis by (subst DecompressHuffman_loop.simps) simp
      next
        case e: False
        have "DecompressHuffman_loop fuel state' (dest[unat byteIndex := ucast symbol])
            destLength (byteIndex + 1) \<noteq> Inl OutOfBoundsWrite"
          using True Inr p e lt "1.prems" by (intro "1.IH") simp_all
        with True Inr p e lt show ?thesis by (subst DecompressHuffman_loop.simps) simp
      qed
    qed
  qed
qed

lemma DecompressHuffman_loop_result:
  "DecompressHuffman_loop fuel st dest destLength bi = Inr (n, dest') \<Longrightarrow> bi \<le> destLength \<Longrightarrow>
   bi \<le> n \<and> n \<le> destLength \<and> length dest' = length dest
   \<and> (\<forall>i. i < unat bi \<or> unat n \<le> i \<longrightarrow> dest' ! i = dest ! i)"
proof (induction fuel st dest destLength bi rule: DecompressHuffman_loop.induct)
  case (1 fuel state dest destLength byteIndex)
  show ?case
  proof (cases "byteLength_H state \<noteq> 0 \<and> byteIndex < destLength")
    case False
    with "1.prems" show ?thesis by (subst (asm) DecompressHuffman_loop.simps) auto
  next
    case True
    then obtain symbol state' where s: "DecompressHuffmanSymbol fuel state = Inr (symbol, state')"
      using "1.prems"(1) by (subst (asm) DecompressHuffman_loop.simps) (auto split: sum.splits)
    show ?thesis
    proof (cases "symbol = CL_COMPRESSOR_END_TOKEN")
      case e: True
      with True s "1.prems" show ?thesis by (subst (asm) DecompressHuffman_loop.simps) auto
    next
      case e: False
      with True s "1.prems"(1) have lt: "unat byteIndex < length dest"
        and rec: "DecompressHuffman_loop fuel state' (dest[unat byteIndex := ucast symbol])
            destLength (byteIndex + 1) = Inr (n, dest')"
        by (subst (asm) DecompressHuffman_loop.simps, auto split: if_splits)+
      from True have "byteIndex < destLength" by simp
      then have su: "unat (byteIndex + 1) = Suc (unat byteIndex)" by (rule unat_Suc_less)
      with True have le: "byteIndex + 1 \<le> destLength"
        by (simp add: word_le_nat_alt word_less_nat_alt)
      note IH0 = "1.IH" [OF True s refl e lt rec le]
      from IH0 have IH1: "byteIndex + 1 \<le> n" by (rule conjunct1)
      from IH0 have IH2: "n \<le> destLength" by (elim conjE)
      from IH0 have IH3: "length dest' = length dest" by (elim conjE) simp
      from IH0 have IH4: "\<forall>i. i < unat (byteIndex + 1) \<or> unat n \<le> i \<longrightarrow>
           dest' ! i = dest[unat byteIndex := ucast symbol] ! i" by (elim conjE)
      from IH1 su have bn: "unat byteIndex < unat n" by (simp add: word_le_nat_alt)
      then have "byteIndex \<le> n" by (simp add: word_le_nat_alt)
      moreover have "dest' ! i = dest ! i" if "i < unat byteIndex \<or> unat n \<le> i" for i
      proof -
        from that bn have "i \<noteq> unat byteIndex" by auto
        moreover from that su have "i < unat (byteIndex + 1) \<or> unat n \<le> i" by auto
        ultimately show ?thesis using IH4 [rule_format, of i] by simp
      qed
      ultimately show ?thesis using IH2 IH3 by simp
    qed
  qed
qed


lemma sint_small_uint: "uint (w::u32) < 2 ^ 31 \<Longrightarrow> sint w = uint w"
proof -
  assume a: "uint w < 2 ^ 31"
  have "- (2 ^ 31) \<le> uint w" by (rule order_trans [of _ 0]) simp_all
  from signed_take_bit_int_eq_self [OF this a] show ?thesis
    by (simp add: sint_uint)
qed

lemma sint_big_uint: "2 ^ 31 \<le> uint (w::u32) \<Longrightarrow> sint w < 0"
proof -
  assume ge: "2 ^ 31 \<le> uint w"
  have "bit (uint w) 31"
  proof -
    have "uint w < 2 ^ 32" using uint_bounded [of w] by simp
    with ge have "uint w div 2 ^ 31 = 1" by simp
    then show ?thesis by (simp add: bit_iff_odd)
  qed
  then show ?thesis by (simp add: sint_uint)
qed

lemma uint_small_unat: "uint (w::u32) < 2 ^ 31 \<longleftrightarrow> unat w < 2 ^ 31"
proof -
  have "uint w < 2 ^ 31 \<longleftrightarrow> int (unat w) < int (2 ^ 31)" by simp
  also have "\<dots> \<longleftrightarrow> unat w < 2 ^ 31" by (simp only: of_nat_less_iff)
  finally show ?thesis .
qed

lemma sint_small: "unat (w::u32) < 2 ^ 31 \<Longrightarrow> sint w = int (unat w)"
proof -
  assume "unat w < 2 ^ 31"
  then have "uint w < 2 ^ 31" by (simp only: uint_small_unat)
  then have "sint w = uint w" by (rule sint_small_uint)
  then show ?thesis by simp
qed

lemma sint_nonneg_unat:
  assumes "0 \<le> sint (w::u32)"
  shows "unat w < 2 ^ 31"
proof -
  have "uint w < 2 ^ 31"
  proof (rule ccontr)
    assume "\<not> uint w < 2 ^ 31"
    then have "2 ^ 31 \<le> uint w" by simp
    from sint_big_uint [OF this] assms show False by simp
  qed
  then show ?thesis by (simp only: uint_small_unat)
qed

text \<open>
  C10. For every source stream and every \<open>destLength \<ge> 0\<close>, the one-shot
  \<open>DecompressHuffman\<close> writes only to indices of \<open>dest\<close> below \<open>destLength\<close>: when the
  caller's buffer has at least \<open>destLength\<close> bytes no write falls outside it, and
  a run that returns \<open>n\<close> has \<open>0 \<le> n \<le> destLength\<close>, has kept the size of the
  buffer and has left every byte from index \<open>n\<close> on, so every byte from index
  \<open>destLength\<close> on, as it was, whatever \<open>byteLength\<close> the stream declares.
\<close>

theorem DecompressHuffman_dest_bound:
  assumes "0 \<le> sint destLength"
  shows "(unat destLength \<le> length dest \<longrightarrow>
            DecompressHuffman fuel state0 source sourceLength dest destLength
              \<noteq> Inl OutOfBoundsWrite)
       \<and> (DecompressHuffman fuel state0 source sourceLength dest destLength = Inr (n, dest') \<longrightarrow>
            0 \<le> sint n \<and> sint n \<le> sint destLength \<and> length dest' = length dest
            \<and> (\<forall>i. nat (sint n) \<le> i \<longrightarrow> dest' ! i = dest ! i))"
proof (intro conjI impI)
  assume "unat destLength \<le> length dest"
  then have "DecompressHuffman_loop fuel st dest (ucast destLength) 0 \<noteq> Inl OutOfBoundsWrite" for st
    by (intro DecompressHuffman_loop_safe) simp
  then show "DecompressHuffman fuel state0 source sourceLength dest destLength
      \<noteq> Inl OutOfBoundsWrite"
    using DecompressHuffmanStart_no_write [of fuel state0 source sourceLength]
    by (auto simp add: DecompressHuffman_def split: sum.splits)
next
  assume r: "DecompressHuffman fuel state0 source sourceLength dest destLength = Inr (n, dest')"
  then obtain st where
    l: "DecompressHuffman_loop fuel st dest destLength 0 = Inr (n, dest')"
    by (auto simp add: DecompressHuffman_def split: sum.splits)
  have "(0::u32) \<le> destLength" by simp
  note R = DecompressHuffman_loop_result [OF l this]
  from R have le: "n \<le> destLength" by (elim conjE)
  from R have len: "length dest' = length dest" by (elim conjE)
  from R have fr: "\<forall>i. i < unat (0::u32) \<or> unat n \<le> i \<longrightarrow> dest' ! i = dest ! i"
    by (elim conjE)
  from assms have d: "unat destLength < 2 ^ 31" by (rule sint_nonneg_unat)
  from le have "unat n \<le> unat destLength" by (simp add: word_le_nat_alt)
  with d have n: "unat n < 2 ^ 31" by simp
  from sint_small [OF n] have sn: "sint n = uint n" by simp
  from sint_small [OF d] have sd: "sint destLength = uint destLength" by simp
  from le have ule: "uint n \<le> uint destLength" by (simp add: word_le_def)
  from sn show "0 \<le> sint n" by simp
  from sn sd ule show "sint n \<le> sint destLength" by simp
  from len show "length dest' = length dest" .
  from sn have e: "nat (sint n) = unat n" by simp
  from fr show "\<forall>i. nat (sint n) \<le> i \<longrightarrow> dest' ! i = dest ! i"
    unfolding e by simp
qed



theorem DecompressHuffman_dest_bound_witness:
  "DecompressHuffman 33 huffman_state_wide huffman_stream_aba 6 [0, 0, 0xEE] 2
     = Inr (2, [0x61, 0x62, 0xEE])
   \<and> DecompressHuffman 33 huffman_state_wide huffman_stream_aba 6 [0, 0, 0xEE] 2
     \<noteq> Inl OutOfBoundsWrite
   \<and> sint (2::i32) \<le> sint (2::i32)
   \<and> [0x61, 0x62, 0xEE :: u8] ! 2 = [0, 0, 0xEE] ! 2"
proof -
  have r: "DecompressHuffman 33 huffman_state_wide huffman_stream_aba 6 [0, 0, 0xEE] 2
     = Inr (2, [0x61, 0x62, 0xEE])"
    by code_simp
  have h: "0 \<le> sint (2::i32)" "unat (2::i32) \<le> length [0, 0, 0xEE :: u8]" by simp_all
  note T = DecompressHuffman_dest_bound [OF h(1), of "[0, 0, 0xEE]" 33 huffman_state_wide
      huffman_stream_aba 6 2 "[0x61, 0x62, 0xEE]"]
  from T [THEN conjunct1] h(2)
  have a: "DecompressHuffman 33 huffman_state_wide huffman_stream_aba 6 [0, 0, 0xEE] 2
     \<noteq> Inl OutOfBoundsWrite"
    by (rule mp)
  from T [THEN conjunct2] r
  have b: "0 \<le> sint (2::i32) \<and> sint (2::i32) \<le> sint (2::i32)
      \<and> length [0x61, 0x62, 0xEE :: u8] = length [0, 0, 0xEE :: u8]
      \<and> (\<forall>i. nat (sint (2::i32)) \<le> i \<longrightarrow> [0x61, 0x62, 0xEE :: u8] ! i = [0, 0, 0xEE] ! i)"
    by (rule mp)
  then have c: "sint (2::i32) \<le> sint (2::i32)" by (elim conjE)
  from b have "nat (sint (2::i32)) \<le> 2 \<longrightarrow> [0x61, 0x62, 0xEE :: u8] ! 2 = [0, 0, 0xEE] ! 2"
    by blast
  then have d: "[0x61, 0x62, 0xEE :: u8] ! 2 = [0, 0, 0xEE] ! 2" by simp
  from r a c d show ?thesis by (intro conjI)
qed

section \<open>Arithmetic decoder: the claim\<close>

lemma ReadBitstream_one_bit:
  assumes "ReadBitstream bs 1 = Inr (b, bs')"
  shows "b \<le> 1"
proof -
  from ReadBitstream_less [OF assms] have "b < 2" by simp
  then show ?thesis by unat_arith
qed

lemma ReadArithmeticBistream_fields:
  assumes "ReadArithmeticBistream s 1 = Inr (b, s')"
  shows "b \<le> 1 \<and> lowValue s' = lowValue s \<and> highValue s' = highValue s
       \<and> buffer s' = buffer s \<and> total s' = total s"
  using assms
  by (auto simp add: ReadArithmeticBistream_def Let_def split: if_splits sum.splits
      dest: ReadBitstream_one_bit)

lemma unat_double_plus:
  fixes a x :: u32
  assumes "unat a < 2 ^ 31" and "unat x \<le> 1"
  shows "unat (2 * a + x) = 2 * unat a + unat x"
proof -
  have "unat (2 * a) = 2 * unat a"
    using assms(1) by (simp add: unat_word_ariths take_bit_eq_mod)
  moreover have "unat (2 * a + x) = (unat (2 * a) + unat x) mod 2 ^ 32"
    by (simp add: unat_word_ariths take_bit_eq_mod)
  ultimately show ?thesis using assms by simp
qed

lemma unat_double:
  fixes a :: u32
  assumes "unat a < 2 ^ 31"
  shows "unat (2 * a) = 2 * unat a"
  using unat_double_plus [OF assms, of 0] by simp

lemma e1_step:
  fixes l h b x :: u32
  assumes "l \<le> b" "b \<le> h" "h < 0x40000000" "x \<le> 1"
  shows "2 * l \<le> 2 * b + x \<and> 2 * b + x \<le> 2 * h + 1 \<and> 2 * h + 1 < 0x80000000"
proof -
  from assms have n: "unat l \<le> unat b" "unat b \<le> unat h" "unat h < 2 ^ 30" "unat x \<le> 1"
    by (simp_all add: word_le_nat_alt word_less_nat_alt)
  then have s: "unat l < 2 ^ 31" "unat b < 2 ^ 31" "unat h < 2 ^ 31" by simp_all
  have e: "unat (2 * l) = 2 * unat l" "unat (2 * b + x) = 2 * unat b + unat x"
    "unat (2 * h + 1) = 2 * unat h + 1"
    using unat_double [OF s(1)] unat_double_plus [OF s(2) n(4)] unat_double_plus [OF s(3), of 1]
    by simp_all
  from n show ?thesis
    by (simp add: word_le_nat_alt word_less_nat_alt e)
qed

lemma window_shift:
  fixes l h b c :: u32
  assumes "l \<le> b" "b \<le> h" "c \<le> l"
  shows "l - c \<le> b - c \<and> b - c \<le> h - c \<and> unat (h - c) = unat h - unat c
       \<and> unat (l - c) = unat l - unat c"
proof -
  from assms have "c \<le> b" "c \<le> h" by simp_all
  with assms(3) have d: "unat (l - c) = unat l - unat c"
    "unat (b - c) = unat b - unat c" "unat (h - c) = unat h - unat c"
    by (simp_all add: unat_sub)
  from assms have "unat l \<le> unat b" "unat b \<le> unat h"
    by (simp_all add: word_le_nat_alt)
  then have "unat l - unat c \<le> unat b - unat c" "unat b - unat c \<le> unat h - unat c"
    by (simp_all add: diff_le_mono)
  then show ?thesis
    by (simp add: word_le_nat_alt d)
qed

lemma e2_step:
  fixes l h b x :: u32
  assumes "l \<le> b" "b \<le> h" "h < 0x80000000" "0x40000000 \<le> l" "x \<le> 1"
  shows "2 * (l - 0x40000000) \<le> 2 * (b - 0x40000000) + x
       \<and> 2 * (b - 0x40000000) + x \<le> 2 * (h - 0x40000000) + 1
       \<and> 2 * (h - 0x40000000) + 1 < 0x80000000"
proof -
  note w = window_shift [OF assms(1,2,4)]
  from assms(3) have "unat h < 2 ^ 31" by (simp add: word_less_nat_alt)
  with w have "unat (h - 0x40000000) < 2 ^ 30" by simp
  then have "h - 0x40000000 < 0x40000000" by (simp add: word_less_nat_alt)
  with w assms(5) show ?thesis by (intro e1_step) simp_all
qed

lemma e3_step:
  fixes l h b x :: u32
  assumes "l \<le> b" "b \<le> h" "h < 0x60000000" "0x20000000 \<le> l" "x \<le> 1"
    "l < 0x40000000" "0x40000000 \<le> h"
  shows "2 * (l - 0x20000000) \<le> 2 * (b - 0x20000000) + x
       \<and> 2 * (b - 0x20000000) + x \<le> 2 * (h - 0x20000000) + 1
       \<and> 2 * (h - 0x20000000) + 1 < 0x80000000
       \<and> 2 * (l - 0x20000000) < 0x40000000 \<and> 0x40000000 \<le> 2 * (h - 0x20000000) + 1"
proof -
  note w = window_shift [OF assms(1,2,4)]
  from assms have n: "unat h < 3 * 2 ^ 29" "unat l < 2 ^ 30" "2 ^ 30 \<le> unat h"
    by (simp_all add: word_le_nat_alt word_less_nat_alt)
  with w have u: "unat (h - 0x20000000) < 2 ^ 30" "2 ^ 29 \<le> unat (h - 0x20000000)"
    "unat (l - 0x20000000) < 2 ^ 29"
    by simp_all
  then have "h - 0x20000000 < 0x40000000" by (simp add: word_less_nat_alt)
  with w assms(5) have a: "2 * (l - 0x20000000) \<le> 2 * (b - 0x20000000) + x
       \<and> 2 * (b - 0x20000000) + x \<le> 2 * (h - 0x20000000) + 1
       \<and> 2 * (h - 0x20000000) + 1 < 0x80000000"
    by (intro e1_step) simp_all
  from u have "unat (l - 0x20000000) < 2 ^ 31" "unat (h - 0x20000000) < 2 ^ 31" by simp_all
  from unat_double [OF this(1)] unat_double_plus [OF this(2), of 1] u
  have "unat (2 * (l - 0x20000000)) < 2 ^ 30" "2 ^ 30 \<le> unat (2 * (h - 0x20000000) + 1)"
    by simp_all
  then have "2 * (l - 0x20000000) < 0x40000000 \<and> 0x40000000 \<le> 2 * (h - 0x20000000) + 1"
    by (simp only: word_le_nat_alt word_less_nat_alt) simp
  with a show ?thesis by simp
qed

lemma straddle_range:
  fixes l h :: u32
  assumes "l < 0x40000000" "0x40000000 \<le> h" "h < 0x80000000"
    "\<not> (0x20000000 \<le> l \<and> h < 0x60000000)"
  shows "0x20000000 < h - l + 1 \<and> l < h"
proof -
  from assms have n: "unat l < 2 ^ 30" "2 ^ 30 \<le> unat h" "unat h < 2 ^ 31"
    "unat l < 2 ^ 29 \<or> 3 * 2 ^ 29 \<le> unat h"
    by (auto simp add: word_le_nat_alt word_less_nat_alt)
  from assms have "l \<le> h" by simp
  then have d: "unat (h - l) = unat h - unat l" by (simp add: unat_sub)
  have "unat (h - l + 1) = (unat (h - l) + 1) mod 2 ^ 32"
    by (simp add: unat_word_ariths take_bit_eq_mod)
  with d n have e: "unat (h - l + 1) = unat h - unat l + 1" by simp
  from n show ?thesis
    by (auto simp add: word_le_nat_alt word_less_nat_alt e)
qed

lemma e12_loop_window:
  "arith_window s \<Longrightarrow> DecompressArithmeticSymbol_e12 fuel s = Inr s' \<Longrightarrow>
   arith_window s' \<and> lowValue s' < range50Percent \<and> range50Percent \<le> highValue s'
   \<and> total s' = total s"
proof (induction fuel arbitrary: s)
  case 0
  then show ?case by (auto split: if_splits)
next
  case (Suc fuel)
  show ?case
  proof (cases "highValue s < range50Percent \<or> lowValue s \<ge> range50Percent")
    case False
    with Suc.prems show ?thesis by auto
  next
    case True
    note loop = True
    show ?thesis
    proof (cases "highValue s < range50Percent")
      case True
      let ?s1 = "s\<lparr>lowValue := 2 * lowValue s, highValue := 2 * highValue s + 1\<rparr>"
      from Suc.prems(2) True obtain b s2 where
        rd: "ReadArithmeticBistream ?s1 1 = Inr (b, s2)"
        and rec: "DecompressArithmeticSymbol_e12 fuel (s2\<lparr>buffer := 2 * buffer ?s1 + b\<rparr>) = Inr s'"
        by (auto simp add: Let_def split: sum.splits)
      from ReadArithmeticBistream_fields [OF rd]
      have f: "b \<le> 1" "lowValue s2 = 2 * lowValue s" "highValue s2 = 2 * highValue s + 1"
        "total s2 = total s"
        by simp_all
      from Suc.prems(1) True f(1)
      have "2 * lowValue s \<le> 2 * buffer s + b \<and> 2 * buffer s + b \<le> 2 * highValue s + 1
          \<and> 2 * highValue s + 1 < 0x80000000"
        by (intro e1_step) (simp_all add: arith_window_def range50Percent_def)
      with f have "arith_window (s2\<lparr>buffer := 2 * buffer ?s1 + b\<rparr>)"
        by (simp add: arith_window_def range100Percent_def)
      from Suc.IH [OF this rec] f(4) show ?thesis by simp
    next
      case False
      with loop have ge: "range50Percent \<le> lowValue s" by simp
      let ?s1 = "s\<lparr>lowValue := 2 * (lowValue s - range50Percent),
                    highValue := 2 * (highValue s - range50Percent) + 1\<rparr>"
      from Suc.prems(2) False ge obtain b s2 where
        rd: "ReadArithmeticBistream ?s1 1 = Inr (b, s2)"
        and rec: "DecompressArithmeticSymbol_e12 fuel
            (s2\<lparr>buffer := 2 * (buffer ?s1 - range50Percent) + b\<rparr>) = Inr s'"
        by (auto simp add: Let_def split: sum.splits)
      from ReadArithmeticBistream_fields [OF rd]
      have f: "b \<le> 1" "lowValue s2 = 2 * (lowValue s - range50Percent)"
        "highValue s2 = 2 * (highValue s - range50Percent) + 1" "total s2 = total s"
        by simp_all
      from Suc.prems(1) ge f(1)
      have "2 * (lowValue s - 0x40000000) \<le> 2 * (buffer s - 0x40000000) + b
          \<and> 2 * (buffer s - 0x40000000) + b \<le> 2 * (highValue s - 0x40000000) + 1
          \<and> 2 * (highValue s - 0x40000000) + 1 < 0x80000000"
        by (intro e2_step) (simp_all add: arith_window_def range50Percent_def range100Percent_def)
      with f have "arith_window (s2\<lparr>buffer := 2 * (buffer ?s1 - range50Percent) + b\<rparr>)"
        by (simp add: arith_window_def range100Percent_def range50Percent_def)
      from Suc.IH [OF this rec] f(4) show ?thesis by simp
    qed
  qed
qed

lemma e3_loop_window:
  "arith_window s \<Longrightarrow> lowValue s < range50Percent \<Longrightarrow> range50Percent \<le> highValue s \<Longrightarrow>
   DecompressArithmeticSymbol_e3 fuel s = Inr s' \<Longrightarrow>
   arith_window s' \<and> lowValue s' < range50Percent \<and> range50Percent \<le> highValue s'
   \<and> \<not> (range25Percent \<le> lowValue s' \<and> highValue s' < range75Percent)
   \<and> total s' = total s"
proof (induction fuel arbitrary: s)
  case 0
  then show ?case by (auto split: if_splits)
next
  case (Suc fuel)
  show ?case
  proof (cases "range25Percent \<le> lowValue s \<and> highValue s < range75Percent")
    case False
    with Suc.prems show ?thesis by auto
  next
    case True
    let ?s1 = "s\<lparr>lowValue := 2 * (lowValue s - range25Percent),
                  highValue := 2 * (highValue s - range25Percent) + 1\<rparr>"
    from Suc.prems(4) True obtain b s2 where
      rd: "ReadArithmeticBistream ?s1 1 = Inr (b, s2)"
      and rec: "DecompressArithmeticSymbol_e3 fuel
          (s2\<lparr>buffer := 2 * (buffer ?s1 - range25Percent) + b\<rparr>) = Inr s'"
      by (auto simp add: Let_def split: sum.splits)
    from ReadArithmeticBistream_fields [OF rd]
    have f: "b \<le> 1" "lowValue s2 = 2 * (lowValue s - range25Percent)"
      "highValue s2 = 2 * (highValue s - range25Percent) + 1" "total s2 = total s"
      by simp_all
    from Suc.prems(1,2,3) True f(1)
    have "2 * (lowValue s - 0x20000000) \<le> 2 * (buffer s - 0x20000000) + b
        \<and> 2 * (buffer s - 0x20000000) + b \<le> 2 * (highValue s - 0x20000000) + 1
        \<and> 2 * (highValue s - 0x20000000) + 1 < 0x80000000
        \<and> 2 * (lowValue s - 0x20000000) < 0x40000000
        \<and> 0x40000000 \<le> 2 * (highValue s - 0x20000000) + 1"
      by (intro e3_step)
        (simp_all add: arith_window_def range50Percent_def range25Percent_def range75Percent_def)
    with f have "arith_window (s2\<lparr>buffer := 2 * (buffer ?s1 - range25Percent) + b\<rparr>)"
      and "lowValue (s2\<lparr>buffer := 2 * (buffer ?s1 - range25Percent) + b\<rparr>) < range50Percent"
      and "range50Percent \<le> highValue (s2\<lparr>buffer := 2 * (buffer ?s1 - range25Percent) + b\<rparr>)"
      by (simp_all add: arith_window_def range100Percent_def range50Percent_def range25Percent_def)
    from Suc.IH [OF this rec] f(4) show ?thesis by simp
  qed
qed


lemma symbol_update_window:
  fixes l h b t lc hc step cum :: u32
  assumes "l \<le> b" "b \<le> h" "h < 0x80000000" "t \<noteq> 0"
    and step: "step = (h - l + 1) div t" "step \<noteq> 0"
    and cum: "cum = (b - l) div step" "lc \<le> cum" "cum < hc" "hc \<le> t"
  shows "l + step * lc \<le> b \<and> b \<le> l + step * hc - 1 \<and> l + step * hc - 1 < 0x80000000"
proof -
  from assms(1-3) have n: "unat l \<le> unat b" "unat b \<le> unat h" "unat h < 2 ^ 31"
    by (simp_all add: word_le_nat_alt word_less_nat_alt)
  from assms(1,2) have "l \<le> h" by simp
  then have hl: "unat (h - l) = unat h - unat l" by (simp add: unat_sub)
  have "unat (h - l + 1) = (unat (h - l) + 1) mod 2 ^ 32"
    by (simp add: unat_word_ariths take_bit_eq_mod)
  with hl n have R: "unat (h - l + 1) = unat h - unat l + 1" by simp
  let ?R = "unat h - unat l + 1"
  let ?S = "unat step"
  from step(1) R have S: "?S = ?R div unat t" by (simp add: unat_div)
  from step(2) have Spos: "0 < ?S" by (simp add: unat_gt_0)
  from assms(1) have bl: "unat (b - l) = unat b - unat l" by (simp add: unat_sub)
  from cum(1) bl have C: "unat cum = (unat b - unat l) div ?S" by (simp add: unat_div)
  from cum(2-4) have c: "unat lc \<le> unat cum" "unat cum < unat hc" "unat hc \<le> unat t"
    by (simp_all add: word_le_nat_alt word_less_nat_alt)
  have ST: "?S * unat t \<le> ?R" unfolding S by (simp add: mult.commute)
  from c(3) have "?S * unat hc \<le> ?S * unat t" by (rule mult_le_mono2)
  from this ST have SH: "?S * unat hc \<le> ?R" by (rule order_trans)
  from c(1,2) have "unat lc \<le> unat hc" by simp
  then have "?S * unat lc \<le> ?S * unat hc" by (rule mult_le_mono2)
  from this SH have SL: "?S * unat lc \<le> ?R" by (rule order_trans)
  from n have Rb: "?R \<le> 2 ^ 31" by simp
  from SH Rb have "?S * unat hc < 2 ^ 32" by simp
  then have mh: "unat (step * hc) = ?S * unat hc"
    by (simp add: unat_mult_lem [THEN iffD1])
  from SL Rb have "?S * unat lc < 2 ^ 32" by simp
  then have ml: "unat (step * lc) = ?S * unat lc"
    by (simp add: unat_mult_lem [THEN iffD1])
  have "?S * unat lc \<le> ?S * unat cum" using c(1) by (rule mult_le_mono2)
  also have "\<dots> \<le> unat b - unat l" unfolding C by (simp add: mult.commute)
  finally have low: "?S * unat lc \<le> unat b - unat l" .
  have "unat b - unat l < ?S + ?S * ((unat b - unat l) div ?S)"
    using Spos by (rule dividend_less_times_div)
  also have "\<dots> = ?S * (unat cum + 1)" unfolding C by simp
  also have "\<dots> \<le> ?S * unat hc" using c(2) by (intro mult_le_mono2) simp
  finally have high: "unat b - unat l < ?S * unat hc" .
  have al: "unat (l + step * lc) = unat l + ?S * unat lc"
  proof -
    have "unat (l + step * lc) = (unat l + unat (step * lc)) mod 2 ^ 32"
      by (simp add: unat_word_ariths take_bit_eq_mod)
    with ml low n show ?thesis by simp
  qed
  have ah: "unat (l + step * hc) = unat l + ?S * unat hc"
  proof -
    have "unat (l + step * hc) = (unat l + unat (step * hc)) mod 2 ^ 32"
      by (simp add: unat_word_ariths take_bit_eq_mod)
    with mh SH n show ?thesis by simp
  qed
  from high have "?S * unat hc \<noteq> 0" by (rule gr_implies_not0)
  then have "0 < ?S * unat hc" by (rule neq0_conv [THEN iffD1])
  then have pos: "0 < unat l + ?S * unat hc" by (rule trans_less_add2)
  then have "l + step * hc \<noteq> 0" using ah by (simp add: unat_eq_0 [symmetric] del: unat_eq_0)
  then have ah1: "unat (l + step * hc - 1) = unat l + ?S * unat hc - 1"
    using ah by (simp add: unat_minus_one)
  from low n have g1: "unat (l + step * lc) \<le> unat b" unfolding al by simp
  from high n have g2: "unat b \<le> unat (l + step * hc - 1)" unfolding ah1 by simp
  from SH n have g3: "unat (l + step * hc - 1) < 2 ^ 31" unfolding ah1 by simp
  from g1 g2 g3 show ?thesis
    by (simp add: word_le_nat_alt word_less_nat_alt)
qed

lemma LookupArithmetic_loop_bracket:
  "LookupArithmetic_loop fuel bs cum b1 lc hc sy i = Inr (sy', lc', hc', bs') \<Longrightarrow> lc \<le> cum \<Longrightarrow>
   lc' \<le> cum \<and> cum < hc'"
proof (induction fuel arbitrary: bs b1 lc hc sy i)
  case 0
  then show ?case by (auto split: if_splits)
next
  case (Suc fuel)
  show ?case
  proof (cases "hc \<le> cum")
    case False
    with Suc.prems show ?thesis by auto
  next
    case True
    with Suc.prems(1) obtain xi bs1 where
      rec: "LookupArithmetic_loop fuel bs1 cum (BitsRequired xi) hc (hc + xi)
          (if xi \<noteq> 0 then i + 1 else sy) (i + 1) = Inr (sy', lc', hc', bs')"
      by (auto split: sum.splits)
    from Suc.IH [OF rec True] show ?thesis .
  qed
qed

lemma LookupArithmeticLowMemoryCount_bracket:
  assumes "LookupArithmeticLowMemoryCount fuel s cum = Inr (sy, lc, hc, s')" and "0 < hc"
  shows "lc \<le> cum \<and> cum < hc \<and> lowValue s' = lowValue s \<and> highValue s' = highValue s
       \<and> buffer s' = buffer s \<and> total s' = total s"
proof -
  from assms obtain len bs1 where
    l1: "DecodeUniversalLomont1 fuel
        ((bitstream_A s)\<lparr>position := tableStartBitPosition s\<rparr>) 6 0 = Inr (len, bs1)"
    by (auto simp add: LookupArithmeticLowMemoryCount_def Let_def split: sum.splits)
  show ?thesis
  proof (cases "len = 0")
    case True
    with assms l1 show ?thesis
      by (auto simp add: LookupArithmeticLowMemoryCount_def Let_def)
  next
    case False
    with assms(1) l1 obtain b1 xi bs3 bs4 where
      lp: "LookupArithmetic_loop fuel bs3 cum b1 0 xi (symbolMin s) (symbolMin s)
          = Inr (sy, lc, hc, bs4)"
      and s': "s' = s\<lparr>bitstream_A := bs4\<lparr>position := position (bitstream_A s)\<rparr>\<rparr>"
      by (auto simp add: LookupArithmeticLowMemoryCount_def Let_def split: sum.splits)
    from LookupArithmetic_loop_bracket [OF lp] s' show ?thesis by simp
  qed
qed

text \<open>The scaling loops end: every step doubles the width of the window.\<close>

lemma ReadArithmeticBistream_error:
  "ReadArithmeticBistream s k = Inl e \<Longrightarrow> e = OutOfBoundsRead"
  by (auto simp add: ReadArithmeticBistream_def Let_def split: if_splits sum.splits
      dest: ReadBitstream_error)

lemma read_in_bounds_mono: "read_in_bounds d p k \<Longrightarrow> j \<le> k \<Longrightarrow> read_in_bounds d p j"
  by (auto simp add: read_in_bounds_def)

lemma arithmetic_reads_in_source_alt:
  "arithmetic_reads_in_source n s \<longleftrightarrow>
     unat (bitsRead s) + n < 2 ^ 32
     \<and> read_in_bounds (data (bitstream_A s)) (position (bitstream_A s))
          (min n (unat (bitLength_A s) - unat (bitsRead s) - 1))"
proof -
  have "uint (bitsRead s) + int n = int (unat (bitsRead s) + n)" by simp
  also have "\<dots> < 2 ^ 32 \<longleftrightarrow> unat (bitsRead s) + n < 2 ^ 32"
    by (rule of_nat_less_numeral_power_cancel_iff)
  finally show ?thesis by (simp add: arithmetic_reads_in_source_def)
qed

lemma arithmetic_reads_in_source_mono:
  assumes "arithmetic_reads_in_source n s" and "m \<le> n"
  shows "arithmetic_reads_in_source m s"
proof -
  let ?x = "unat (bitLength_A s) - unat (bitsRead s) - 1"
  from assms(2) have "min m ?x \<le> min n ?x" by simp
  with assms show ?thesis
    unfolding arithmetic_reads_in_source_alt by (auto elim: read_in_bounds_mono)
qed

lemma arithmetic_reads_in_source_window [simp]:
  "arithmetic_reads_in_source n (s\<lparr>lowValue := l, highValue := h\<rparr>)
     = arithmetic_reads_in_source n s"
  "arithmetic_reads_in_source n (s\<lparr>buffer := b\<rparr>) = arithmetic_reads_in_source n s"
  by (simp_all add: arithmetic_reads_in_source_alt)

lemma arithmetic_reads_in_source_step:
  assumes "arithmetic_reads_in_source (Suc n) s"
  shows "\<exists>b s'. ReadArithmeticBistream s 1 = Inr (b, s') \<and> arithmetic_reads_in_source n s'"
proof -
  let ?r = "unat (bitsRead s)" and ?L = "unat (bitLength_A s)"
  let ?d = "data (bitstream_A s)" and ?p = "position (bitstream_A s)"
  from assms have nw: "?r + Suc n < 2 ^ 32"
    and rb: "read_in_bounds ?d ?p (min (Suc n) (?L - ?r - 1))"
    by (simp_all add: arithmetic_reads_in_source_alt)
  have "unat (bitsRead s + 1) = (?r + 1) mod 2 ^ 32"
    by (simp add: unat_word_ariths take_bit_eq_mod)
  with nw have r1: "unat (bitsRead s + 1) = ?r + 1" by simp
  show ?thesis
  proof (cases "bitsRead s + 1 < bitLength_A s")
    case True
    then have lt: "?r + 1 < ?L" by (simp add: word_less_nat_alt r1)
    then have m: "min (Suc n) (?L - ?r - 1) = Suc (min n (?L - (?r + 1) - 1))"
      by arith
    from rb have inb: "unat ?p div 8 < length ?d"
      and rest: "read_in_bounds ?d (?p + 1) (min n (?L - (?r + 1) - 1))"
      unfolding m read_in_bounds_Suc by simp_all
    from inb have "read_in_bounds ?d ?p (unat (1::u32))" by (simp add: read_in_bounds_def)
    from ReadBitstream_in_bounds [OF this]
    have rd: "ReadBitstream (bitstream_A s) 1
        = Inr (of_nat (bits_value ?d ?p (unat (1::u32))), (bitstream_A s)\<lparr>position := ?p + 1\<rparr>)" .
    let ?s' = "s\<lparr>bitsRead := bitsRead s + 1, bitstream_A := (bitstream_A s)\<lparr>position := ?p + 1\<rparr>\<rparr>"
    from True rd have "ReadArithmeticBistream s 1
        = Inr (of_nat (bits_value ?d ?p (unat (1::u32))), ?s')"
      by (simp add: ReadArithmeticBistream_def Let_def)
    moreover from nw rest have "arithmetic_reads_in_source n ?s'"
      by (simp add: arithmetic_reads_in_source_alt r1)
    ultimately show ?thesis by blast
  next
    case False
    then have ge: "?L \<le> ?r + 1" by (simp add: word_less_nat_alt r1)
    let ?s' = "s\<lparr>bitsRead := bitsRead s + 1\<rparr>"
    from False have "ReadArithmeticBistream s 1 = Inr (0, ?s')"
      by (simp add: ReadArithmeticBistream_def Let_def)
    moreover from nw ge have "arithmetic_reads_in_source n ?s'"
      by (simp add: arithmetic_reads_in_source_alt r1 read_in_bounds_def)
    ultimately show ?thesis by blast
  qed
qed

text \<open>The width of the window after a scaling step that subtracts \<open>c\<close>.\<close>

lemma scaled_width:
  fixes l h c :: u32
  assumes "l \<le> h" and "c \<le> l" and "unat h - unat c < 2 ^ 30"
  shows "unat (2 * (h - c) + 1) - unat (2 * (l - c)) + 1 = 2 * (unat h - unat l + 1)"
proof -
  note w = window_shift [OF order_refl assms(1,2)]
  from assms(1,2) have n: "unat l \<le> unat h" "unat c \<le> unat l"
    by (simp_all add: word_le_nat_alt)
  from w assms(3) have hs: "unat (h - c) < 2 ^ 31" by simp
  from w n assms(3) have ls: "unat (l - c) < 2 ^ 31" by simp
  have "unat (2 * (h - c) + 1) = 2 * unat (h - c) + unat (1::u32)"
    using hs by (intro unat_double_plus) simp_all
  moreover have "unat (2 * (l - c)) = 2 * unat (l - c)"
    using ls by (rule unat_double)
  ultimately show ?thesis using w n by simp
qed

lemma e12_loop_returns:
  "arith_window s \<Longrightarrow> 2 ^ 31 \<le> 2 ^ k * window_width s \<Longrightarrow> k \<le> fuel \<Longrightarrow>
   DecompressArithmeticSymbol_e12 fuel s \<noteq> Inl OutOfFuel
   \<and> (arithmetic_reads_in_source (k + m) s \<longrightarrow>
        (\<exists>s'. DecompressArithmeticSymbol_e12 fuel s = Inr s' \<and> arithmetic_reads_in_source m s'))"
proof (induction k arbitrary: s fuel)
  case 0
  from 0(1) have "unat (lowValue s) \<le> unat (highValue s)" "unat (highValue s) < 2 ^ 31"
    by (auto simp add: arith_window_def range100Percent_def word_le_nat_alt word_less_nat_alt)
  with 0(2) have "unat (lowValue s) = 0" "unat (highValue s) = 2 ^ 31 - 1"
    by (simp_all add: window_width_def)
  then have "\<not> (highValue s < range50Percent \<or> lowValue s \<ge> range50Percent)"
    by (simp add: range50Percent_def word_le_nat_alt word_less_nat_alt)
  then have "DecompressArithmeticSymbol_e12 fuel s = Inr s" by simp
  then show ?case by simp
next
  case (Suc k)
  from Suc.prems(1) have w: "lowValue s \<le> buffer s" "buffer s \<le> highValue s"
    "highValue s < 0x80000000"
    by (simp_all add: arith_window_def range100Percent_def)
  then have lh: "lowValue s \<le> highValue s" by simp
  from Suc.prems(3) obtain f where f: "fuel = Suc f" and kf: "k \<le> f" by (cases fuel) auto
  show ?case
  proof (cases "highValue s < range50Percent \<or> lowValue s \<ge> range50Percent")
    case False
    then have "DecompressArithmeticSymbol_e12 fuel s = Inr s" by simp
    then show ?thesis by (auto elim: arithmetic_reads_in_source_mono)
  next
    case True
    note loop = True
    show ?thesis
    proof (cases "highValue s < range50Percent")
      case True
      let ?s1 = "s\<lparr>lowValue := 2 * lowValue s, highValue := 2 * highValue s + 1\<rparr>"
      let ?next = "\<lambda>b s2. s2\<lparr>buffer := 2 * buffer ?s1 + b\<rparr>"
      have unf: "DecompressArithmeticSymbol_e12 (Suc f) s =
          (case ReadArithmeticBistream ?s1 1 of Inl e \<Rightarrow> Inl e
           | Inr (b, s2) \<Rightarrow> DecompressArithmeticSymbol_e12 f (?next b s2))"
        using True by (subst DecompressArithmeticSymbol_e12.simps) (simp add: Let_def)
      have stp: "arith_window (?next b s2) \<and> 2 ^ 31 \<le> 2 ^ k * window_width (?next b s2)"
        if rd: "ReadArithmeticBistream ?s1 1 = Inr (b, s2)" for b s2
      proof -
        from ReadArithmeticBistream_fields [OF rd]
        have fl: "b \<le> 1" "lowValue s2 = 2 * lowValue s" "highValue s2 = 2 * highValue s + 1"
          by simp_all
        from w True fl(1)
        have "2 * lowValue s \<le> 2 * buffer s + b \<and> 2 * buffer s + b \<le> 2 * highValue s + 1
            \<and> 2 * highValue s + 1 < 0x80000000"
          by (intro e1_step) (simp_all add: range50Percent_def)
        with fl have a: "arith_window (?next b s2)"
          by (simp add: arith_window_def range100Percent_def)
        from True have "unat (highValue s) - unat (0::u32) < 2 ^ 30"
          by (simp add: range50Percent_def word_less_nat_alt)
        from scaled_width [OF lh _ this]
        have "window_width (?next b s2) = 2 * window_width s"
          by (simp add: window_width_def fl)
        with Suc.prems(2) have "2 ^ 31 \<le> 2 ^ k * window_width (?next b s2)" by simp
        with a show ?thesis by simp
      qed
      have g1: "DecompressArithmeticSymbol_e12 fuel s \<noteq> Inl OutOfFuel"
      proof (cases "ReadArithmeticBistream ?s1 1")
        case (Inl e)
        with unf ReadArithmeticBistream_error [OF Inl] show ?thesis by (simp add: f)
      next
        case (Inr r)
        obtain b s2 where r: "r = (b, s2)" by (cases r) auto
        from stp [OF Inr [unfolded r]] Suc.IH [of "?next b s2" f] kf
        have "DecompressArithmeticSymbol_e12 f (?next b s2) \<noteq> Inl OutOfFuel" by blast
        with unf Inr r show ?thesis by (simp add: f)
      qed
      have g2: "\<exists>s'. DecompressArithmeticSymbol_e12 fuel s = Inr s'
          \<and> arithmetic_reads_in_source m s'"
        if rs: "arithmetic_reads_in_source (Suc k + m) s"
      proof -
        from rs have "arithmetic_reads_in_source (Suc (k + m)) ?s1" by simp
        from arithmetic_reads_in_source_step [OF this] obtain b s2 where
          rd: "ReadArithmeticBistream ?s1 1 = Inr (b, s2)"
          and r2: "arithmetic_reads_in_source (k + m) s2"
          by blast
        from r2 have "arithmetic_reads_in_source (k + m) (?next b s2)" by simp
        with stp [OF rd] Suc.IH [of "?next b s2" f] kf
        obtain s' where "DecompressArithmeticSymbol_e12 f (?next b s2) = Inr s'"
          "arithmetic_reads_in_source m s'"
          by blast
        with unf rd show ?thesis by (simp add: f)
      qed
      from g1 g2 show ?thesis by blast
    next
      case False
      with loop have ge: "range50Percent \<le> lowValue s" by simp
      let ?s1 = "s\<lparr>lowValue := 2 * (lowValue s - range50Percent),
                    highValue := 2 * (highValue s - range50Percent) + 1\<rparr>"
      let ?next = "\<lambda>b s2. s2\<lparr>buffer := 2 * (buffer ?s1 - range50Percent) + b\<rparr>"
      have unf: "DecompressArithmeticSymbol_e12 (Suc f) s =
          (case ReadArithmeticBistream ?s1 1 of Inl e \<Rightarrow> Inl e
           | Inr (b, s2) \<Rightarrow> DecompressArithmeticSymbol_e12 f (?next b s2))"
        using False ge
        by (subst DecompressArithmeticSymbol_e12.simps)
          (simp add: Let_def del: right_diff_distrib_numeral)
      have stp: "arith_window (?next b s2) \<and> 2 ^ 31 \<le> 2 ^ k * window_width (?next b s2)"
        if rd: "ReadArithmeticBistream ?s1 1 = Inr (b, s2)" for b s2
      proof -
        from ReadArithmeticBistream_fields [OF rd]
        have fl: "b \<le> 1" "lowValue s2 = 2 * (lowValue s - range50Percent)"
          "highValue s2 = 2 * (highValue s - range50Percent) + 1"
          by simp_all
        from w ge fl(1)
        have "2 * (lowValue s - 0x40000000) \<le> 2 * (buffer s - 0x40000000) + b
            \<and> 2 * (buffer s - 0x40000000) + b \<le> 2 * (highValue s - 0x40000000) + 1
            \<and> 2 * (highValue s - 0x40000000) + 1 < 0x80000000"
          by (intro e2_step) (simp_all add: range50Percent_def)
        with fl have a: "arith_window (?next b s2)"
          by (simp add: arith_window_def range100Percent_def range50Percent_def)
        from w(3) have "unat (highValue s) - unat range50Percent < 2 ^ 30"
          by (simp add: range50Percent_def word_less_nat_alt)
        from scaled_width [OF lh ge this]
        have "window_width (?next b s2) = 2 * window_width s"
          by (simp add: window_width_def fl)
        with Suc.prems(2) have "2 ^ 31 \<le> 2 ^ k * window_width (?next b s2)" by simp
        with a show ?thesis by simp
      qed
      have g1: "DecompressArithmeticSymbol_e12 fuel s \<noteq> Inl OutOfFuel"
      proof (cases "ReadArithmeticBistream ?s1 1")
        case (Inl e)
        with unf ReadArithmeticBistream_error [OF Inl] show ?thesis by (simp add: f)
      next
        case (Inr r)
        obtain b s2 where r: "r = (b, s2)" by (cases r) auto
        from stp [OF Inr [unfolded r]] Suc.IH [of "?next b s2" f] kf
        have "DecompressArithmeticSymbol_e12 f (?next b s2) \<noteq> Inl OutOfFuel" by blast
        with unf Inr r show ?thesis by (simp add: f)
      qed
      have g2: "\<exists>s'. DecompressArithmeticSymbol_e12 fuel s = Inr s'
          \<and> arithmetic_reads_in_source m s'"
        if rs: "arithmetic_reads_in_source (Suc k + m) s"
      proof -
        from rs have "arithmetic_reads_in_source (Suc (k + m)) ?s1" by simp
        from arithmetic_reads_in_source_step [OF this] obtain b s2 where
          rd: "ReadArithmeticBistream ?s1 1 = Inr (b, s2)"
          and r2: "arithmetic_reads_in_source (k + m) s2"
          by blast
        from r2 have "arithmetic_reads_in_source (k + m) (?next b s2)" by simp
        with stp [OF rd] Suc.IH [of "?next b s2" f] kf
        obtain s' where "DecompressArithmeticSymbol_e12 f (?next b s2) = Inr s'"
          "arithmetic_reads_in_source m s'"
          by blast
        with unf rd show ?thesis by (simp add: f)
      qed
      from g1 g2 show ?thesis by blast
    qed
  qed
qed


lemma e3_loop_exit:
  assumes "\<not> (range25Percent \<le> lowValue s \<and> highValue s < range75Percent)"
  shows "DecompressArithmeticSymbol_e3 fuel s = Inr s"
  using assms by (subst DecompressArithmeticSymbol_e3.simps) (simp only: if_False)

lemma e3_loop_returns:
  "arith_window s \<Longrightarrow> lowValue s < range50Percent \<Longrightarrow> range50Percent \<le> highValue s \<Longrightarrow>
   2 ^ 31 \<le> 2 ^ k * window_width s \<Longrightarrow> k \<le> fuel \<Longrightarrow>
   DecompressArithmeticSymbol_e3 fuel s \<noteq> Inl OutOfFuel
   \<and> (arithmetic_reads_in_source (k + m) s \<longrightarrow>
        (\<exists>s'. DecompressArithmeticSymbol_e3 fuel s = Inr s' \<and> arithmetic_reads_in_source m s'))"
proof (induction k arbitrary: s fuel)
  case 0
  from 0(1) have "unat (lowValue s) \<le> unat (highValue s)" "unat (highValue s) < 2 ^ 31"
    by (auto simp add: arith_window_def range100Percent_def word_le_nat_alt word_less_nat_alt)
  with 0(4) have "unat (lowValue s) = 0" by (simp add: window_width_def)
  then have "\<not> (range25Percent \<le> lowValue s \<and> highValue s < range75Percent)"
    by (simp add: range25Percent_def word_le_nat_alt)
  then have "DecompressArithmeticSymbol_e3 fuel s = Inr s" by (rule e3_loop_exit)
  then show ?case by simp
next
  case (Suc k)
  from Suc.prems(1) have w: "lowValue s \<le> buffer s" "buffer s \<le> highValue s"
    "highValue s < 0x80000000"
    by (simp_all add: arith_window_def range100Percent_def)
  then have lh: "lowValue s \<le> highValue s" by simp
  from Suc.prems(5) obtain f where f: "fuel = Suc f" and kf: "k \<le> f" by (cases fuel) auto
  show ?case
  proof (cases "range25Percent \<le> lowValue s \<and> highValue s < range75Percent")
    case False
    then have "DecompressArithmeticSymbol_e3 fuel s = Inr s" by (rule e3_loop_exit)
    then show ?thesis by (auto elim: arithmetic_reads_in_source_mono)
  next
    case True
    then have ge: "range25Percent \<le> lowValue s" and lt: "highValue s < range75Percent"
      by simp_all
    let ?s1 = "s\<lparr>lowValue := 2 * (lowValue s - range25Percent),
                  highValue := 2 * (highValue s - range25Percent) + 1\<rparr>"
    let ?next = "\<lambda>b s2. s2\<lparr>buffer := 2 * (buffer ?s1 - range25Percent) + b\<rparr>"
    have unf: "DecompressArithmeticSymbol_e3 (Suc f) s =
        (case ReadArithmeticBistream ?s1 1 of Inl e \<Rightarrow> Inl e
         | Inr (b, s2) \<Rightarrow> DecompressArithmeticSymbol_e3 f (?next b s2))"
      using True
      by (subst DecompressArithmeticSymbol_e3.simps)
        (simp add: Let_def del: right_diff_distrib_numeral)
    have stp: "arith_window (?next b s2) \<and> lowValue (?next b s2) < range50Percent
        \<and> range50Percent \<le> highValue (?next b s2)
        \<and> 2 ^ 31 \<le> 2 ^ k * window_width (?next b s2)"
      if rd: "ReadArithmeticBistream ?s1 1 = Inr (b, s2)" for b s2
    proof -
      from ReadArithmeticBistream_fields [OF rd]
      have fl: "b \<le> 1" "lowValue s2 = 2 * (lowValue s - range25Percent)"
        "highValue s2 = 2 * (highValue s - range25Percent) + 1"
        by simp_all
      from w Suc.prems(2,3) ge lt fl(1)
      have "2 * (lowValue s - 0x20000000) \<le> 2 * (buffer s - 0x20000000) + b
          \<and> 2 * (buffer s - 0x20000000) + b \<le> 2 * (highValue s - 0x20000000) + 1
          \<and> 2 * (highValue s - 0x20000000) + 1 < 0x80000000
          \<and> 2 * (lowValue s - 0x20000000) < 0x40000000
          \<and> 0x40000000 \<le> 2 * (highValue s - 0x20000000) + 1"
        by (intro e3_step)
          (simp_all add: range50Percent_def range25Percent_def range75Percent_def)
      with fl have a: "arith_window (?next b s2)" "lowValue (?next b s2) < range50Percent"
        "range50Percent \<le> highValue (?next b s2)"
        by (simp_all add: arith_window_def range100Percent_def range50Percent_def
            range25Percent_def)
      from lt have "unat (highValue s) - unat range25Percent < 2 ^ 30"
        by (simp add: range25Percent_def range75Percent_def word_less_nat_alt)
      from scaled_width [OF lh ge this]
      have "window_width (?next b s2) = 2 * window_width s"
        by (simp add: window_width_def fl)
      with Suc.prems(4) have "2 ^ 31 \<le> 2 ^ k * window_width (?next b s2)" by simp
      with a show ?thesis by simp
    qed
    have g1: "DecompressArithmeticSymbol_e3 fuel s \<noteq> Inl OutOfFuel"
    proof (cases "ReadArithmeticBistream ?s1 1")
      case (Inl e)
      with unf ReadArithmeticBistream_error [OF Inl] show ?thesis by (simp add: f)
    next
      case (Inr r)
      obtain b s2 where r: "r = (b, s2)" by (cases r) auto
      from stp [OF Inr [unfolded r]] Suc.IH [of "?next b s2" f] kf
      have "DecompressArithmeticSymbol_e3 f (?next b s2) \<noteq> Inl OutOfFuel" by blast
      with unf Inr r show ?thesis by (simp add: f)
    qed
    have g2: "\<exists>s'. DecompressArithmeticSymbol_e3 fuel s = Inr s'
        \<and> arithmetic_reads_in_source m s'"
      if rs: "arithmetic_reads_in_source (Suc k + m) s"
    proof -
      from rs have "arithmetic_reads_in_source (Suc (k + m)) ?s1" by simp
      from arithmetic_reads_in_source_step [OF this] obtain b s2 where
        rd: "ReadArithmeticBistream ?s1 1 = Inr (b, s2)"
        and r2: "arithmetic_reads_in_source (k + m) s2"
        by blast
      from r2 have "arithmetic_reads_in_source (k + m) (?next b s2)" by simp
      with stp [OF rd] Suc.IH [of "?next b s2" f] kf
      obtain s' where "DecompressArithmeticSymbol_e3 f (?next b s2) = Inr s'"
        "arithmetic_reads_in_source m s'"
        by blast
      with unf rd show ?thesis by (simp add: f)
    qed
    from g1 g2 show ?thesis by blast
  qed
qed

text \<open>The window after the symbol's interval has been taken, and the two loops on it.\<close>

lemma scaling_returns:
  assumes w: "arith_window s" and fuel: "31 \<le> fuel"
  shows "(case DecompressArithmeticSymbol_e12 fuel s of
            Inl e \<Rightarrow> e \<noteq> OutOfFuel
          | Inr s4 \<Rightarrow> DecompressArithmeticSymbol_e3 fuel s4 \<noteq> Inl OutOfFuel)
       \<and> (arithmetic_reads_in_source 61 s \<longrightarrow>
            (\<exists>s4 s5. DecompressArithmeticSymbol_e12 fuel s = Inr s4
               \<and> DecompressArithmeticSymbol_e3 fuel s4 = Inr s5))"
proof -
  from w have "unat (lowValue s) \<le> unat (highValue s)"
    by (auto simp add: arith_window_def word_le_nat_alt)
  then have w1: "2 ^ 31 \<le> 2 ^ 31 * window_width s" by (simp add: window_width_def)
  note e12 = e12_loop_returns [OF w w1 fuel, of 30]
  have e3: "DecompressArithmeticSymbol_e3 fuel s4 \<noteq> Inl OutOfFuel
      \<and> (arithmetic_reads_in_source (30 + 0) s4 \<longrightarrow>
        (\<exists>s'. DecompressArithmeticSymbol_e3 fuel s4 = Inr s' \<and> arithmetic_reads_in_source 0 s'))"
    if r: "DecompressArithmeticSymbol_e12 fuel s = Inr s4" for s4
  proof -
    from e12_loop_window [OF w r]
    have w4: "arith_window s4" "lowValue s4 < range50Percent" "range50Percent \<le> highValue s4"
      by simp_all
    then have "unat (lowValue s4) < 2 ^ 30" "2 ^ 30 \<le> unat (highValue s4)"
      by (simp_all add: range50Percent_def word_le_nat_alt word_less_nat_alt)
    then have "2 \<le> window_width s4" by (simp add: window_width_def)
    then have "2 ^ 30 * 2 \<le> 2 ^ 30 * window_width s4" by (rule mult_le_mono2)
    then have w2: "2 ^ 31 \<le> 2 ^ 30 * window_width s4" by simp
    from fuel have "30 \<le> fuel" by simp
    from e3_loop_returns [OF w4 w2 this] show ?thesis .
  qed
  have g1: "(case DecompressArithmeticSymbol_e12 fuel s of
            Inl e \<Rightarrow> e \<noteq> OutOfFuel
          | Inr s4 \<Rightarrow> DecompressArithmeticSymbol_e3 fuel s4 \<noteq> Inl OutOfFuel)"
  proof (cases "DecompressArithmeticSymbol_e12 fuel s")
    case (Inl e)
    with e12 show ?thesis by auto
  next
    case (Inr s4)
    with e3 [OF Inr] show ?thesis by simp
  qed
  have g2: "\<exists>s4 s5. DecompressArithmeticSymbol_e12 fuel s = Inr s4
               \<and> DecompressArithmeticSymbol_e3 fuel s4 = Inr s5"
    if rs: "arithmetic_reads_in_source 61 s"
  proof -
    from rs have "arithmetic_reads_in_source (31 + 30) s" by simp
    with e12 obtain s4 where r: "DecompressArithmeticSymbol_e12 fuel s = Inr s4"
      and r4: "arithmetic_reads_in_source 30 s4"
      by blast
    from r4 have "arithmetic_reads_in_source (30 + 0) s4" by simp
    with e3 [OF r] obtain s5 where "DecompressArithmeticSymbol_e3 fuel s4 = Inr s5" by blast
    with r show ?thesis by blast
  qed
  from g1 g2 show ?thesis by blast
qed

text \<open>
  Every loop of the table lookup reads a bit in each iteration, and a read past
  the source fails: the lookup ends within the number of bits of the source.
\<close>

lemma ReadBitstream_loop_left:
  "ReadBitstream_loop n bs v = Inr (r, bs') \<Longrightarrow> 8 * length (data bs) < 2 ^ 32 \<Longrightarrow>
   data bs' = data bs \<and> bits_left bs' + n = bits_left bs"
proof (induction n arbitrary: bs v)
  case 0
  then show ?case by simp
next
  case (Suc n)
  let ?bs1 = "bs\<lparr>position := position bs + 1\<rparr>"
  from Suc.prems(1) obtain v1 where inb: "unat (position bs div 8) < length (data bs)"
    and rec: "ReadBitstream_loop n ?bs1 v1 = Inr (r, bs')"
    by (auto simp add: Let_def split: if_splits)
  from inb have lt: "unat (position bs) < 8 * length (data bs)" by (simp add: unat_div)
  have "unat (position bs + 1) = (unat (position bs) + 1) mod 2 ^ 32"
    by (simp add: unat_word_ariths take_bit_eq_mod)
  with lt Suc.prems(2) have p1: "unat (position bs + 1) = unat (position bs) + 1" by simp
  with lt have "bits_left ?bs1 + 1 = bits_left bs" by (simp add: bits_left_def)
  moreover from Suc.IH [OF rec] Suc.prems(2)
  have "data bs' = data bs \<and> bits_left bs' + n = bits_left ?bs1" by simp
  ultimately show ?case by simp
qed

lemma ReadBitstream_left:
  "ReadBitstream bs k = Inr (r, bs') \<Longrightarrow> 8 * length (data bs) < 2 ^ 32 \<Longrightarrow>
   data bs' = data bs \<and> bits_left bs' + unat k = bits_left bs"
  unfolding ReadBitstream_def by (rule ReadBitstream_loop_left)

lemma Lomont1_loop_left:
  "DecodeUniversalLomont1_loop fuel bs v sh c d = Inr (r, bs') \<Longrightarrow>
   8 * length (data bs) < 2 ^ 32 \<Longrightarrow>
   data bs' = data bs \<and> bits_left bs' \<le> bits_left bs"
proof (induction fuel arbitrary: bs v sh c)
  case 0
  then show ?case by simp
next
  case (Suc fuel)
  from Suc.prems(1) obtain b bs1 where r1: "ReadBitstream bs 1 = Inr (b, bs1)"
    by (auto split: sum.splits)
  with Suc.prems(1) obtain chunk bs2 where
    r2: "ReadBitstream bs1 (word_of_int c) = Inr (chunk, bs2)"
    by (auto split: sum.splits)
  from ReadBitstream_left [OF r1 Suc.prems(2)]
  have l1: "data bs1 = data bs" "bits_left bs1 \<le> bits_left bs" by simp_all
  with ReadBitstream_left [OF r2] Suc.prems(2)
  have l2: "data bs2 = data bs" "bits_left bs2 \<le> bits_left bs" by simp_all
  show ?case
  proof (cases "b = 0")
    case True
    with Suc.prems(1) r1 r2 have "bs' = bs2"
      by (auto simp add: Let_def split: if_splits)
    with l2 show ?thesis by simp
  next
    case False
    with Suc.prems(1) r1 r2 obtain v2 where
      "DecodeUniversalLomont1_loop fuel bs2 v2 (sh + c) (next_chunkSize c d) d = Inr (r, bs')"
      by (auto simp add: Let_def split: if_splits)
    from Suc.IH [OF this] l2 Suc.prems(2) show ?thesis by simp
  qed
qed

lemma Lomont1_left:
  "DecodeUniversalLomont1 fuel bs c d = Inr (r, bs') \<Longrightarrow> 8 * length (data bs) < 2 ^ 32 \<Longrightarrow>
   data bs' = data bs \<and> bits_left bs' \<le> bits_left bs"
  unfolding DecodeUniversalLomont1_def by (rule Lomont1_loop_left)

lemma Lomont1_fuel:
  "33 \<le> fuel \<Longrightarrow> DecodeUniversalLomont1 fuel bs 6 0 \<noteq> Inl OutOfFuel"
  unfolding DecodeUniversalLomont1_def by (intro Lomont1_loop_fuel) simp_all

lemma LookupArithmetic_delta_left:
  "LookupArithmetic_delta fuel bs delta = Inr (r, bs') \<Longrightarrow> 8 * length (data bs) < 2 ^ 32 \<Longrightarrow>
   data bs' = data bs \<and> bits_left bs' \<le> bits_left bs"
proof (induction fuel arbitrary: bs delta)
  case 0
  then show ?case by simp
next
  case (Suc fuel)
  from Suc.prems(1) obtain b bs1 where r1: "ReadBitstream bs 1 = Inr (b, bs1)"
    by (auto split: sum.splits)
  from ReadBitstream_left [OF r1 Suc.prems(2)]
  have l1: "data bs1 = data bs" "bits_left bs1 \<le> bits_left bs" by simp_all
  show ?case
  proof (cases "b = 0")
    case True
    with Suc.prems(1) r1 have "bs' = bs1" by auto
    with l1 show ?thesis by simp
  next
    case False
    with Suc.prems(1) r1 have "LookupArithmetic_delta fuel bs1 (delta + 1) = Inr (r, bs')"
      by auto
    from Suc.IH [OF this] l1 Suc.prems(2) show ?thesis by simp
  qed
qed

lemma LookupArithmetic_delta_fuel:
  "bits_left bs < fuel \<Longrightarrow> 8 * length (data bs) < 2 ^ 32 \<Longrightarrow>
   LookupArithmetic_delta fuel bs delta \<noteq> Inl OutOfFuel"
proof (induction fuel arbitrary: bs delta)
  case 0
  then show ?case by simp
next
  case (Suc fuel)
  show ?case
  proof (cases "ReadBitstream bs 1")
    case (Inl e)
    with ReadBitstream_error [OF Inl] show ?thesis by simp
  next
    case (Inr r)
    obtain b bs1 where r: "r = (b, bs1)" by (cases r) auto
    from ReadBitstream_left [OF Inr [unfolded r] Suc.prems(2)]
    have l1: "data bs1 = data bs" "bits_left bs1 + 1 = bits_left bs" by simp_all
    with Suc.prems have "bits_left bs1 < fuel" "8 * length (data bs1) < 2 ^ 32" by simp_all
    from Suc.IH [OF this] Inr r show ?thesis by simp
  qed
qed

lemma LookupArithmetic_entry_left:
  assumes "LookupArithmetic_entry fuel bs b1 = Inr (xi, bs')" and "8 * length (data bs) < 2 ^ 32"
  shows "data bs' = data bs \<and> bits_left bs' < bits_left bs"
proof -
  from assms(1) obtain dec bs1 where r1: "ReadBitstream bs 1 = Inr (dec, bs1)"
    by (auto simp add: LookupArithmetic_entry_def split: sum.splits)
  from ReadBitstream_left [OF r1 assms(2)]
  have l1: "data bs1 = data bs" "bits_left bs1 + 1 = bits_left bs" by simp_all
  show ?thesis
  proof (cases "dec = 0")
    case True
    with assms(1) r1 have "ReadBitstream bs1 b1 = Inr (xi, bs')"
      by (simp add: LookupArithmetic_entry_def)
    from ReadBitstream_left [OF this] l1 assms(2) show ?thesis by simp
  next
    case False
    with assms(1) r1 obtain delta bs2 x where
      d: "LookupArithmetic_delta fuel bs1 0 = Inr (delta, bs2)"
      and r3: "ReadBitstream bs2 (b1 + delta - 1) = Inr (x, bs')"
      by (auto simp add: LookupArithmetic_entry_def Let_def split: sum.splits if_splits)
    from LookupArithmetic_delta_left [OF d] l1 assms(2)
    have l2: "data bs2 = data bs" "bits_left bs2 \<le> bits_left bs1" by simp_all
    from ReadBitstream_left [OF r3] l2 l1 assms(2) show ?thesis by simp
  qed
qed

lemma LookupArithmetic_entry_fuel:
  assumes "bits_left bs < fuel" and "8 * length (data bs) < 2 ^ 32"
  shows "LookupArithmetic_entry fuel bs b1 \<noteq> Inl OutOfFuel"
proof (cases "ReadBitstream bs 1")
  case (Inl e)
  with ReadBitstream_error [OF Inl] show ?thesis by (simp add: LookupArithmetic_entry_def)
next
  case (Inr r)
  obtain dec bs1 where r: "r = (dec, bs1)" by (cases r) auto
  from ReadBitstream_left [OF Inr [unfolded r] assms(2)]
  have l1: "data bs1 = data bs" "bits_left bs1 + 1 = bits_left bs" by simp_all
  with assms have "bits_left bs1 < fuel" "8 * length (data bs1) < 2 ^ 32" by simp_all
  from LookupArithmetic_delta_fuel [OF this]
  have "LookupArithmetic_delta fuel bs1 0 \<noteq> Inl OutOfFuel" .
  with Inr r show ?thesis
    by (auto simp add: LookupArithmetic_entry_def Let_def split: sum.splits
        dest: ReadBitstream_error)
qed

lemma LookupArithmetic_loop_fuel:
  "bits_left bs + 2 \<le> fuel \<Longrightarrow> 8 * length (data bs) < 2 ^ 32 \<Longrightarrow>
   LookupArithmetic_loop fuel bs cum b1 lc hc sy i \<noteq> Inl OutOfFuel"
proof (induction fuel arbitrary: bs b1 lc hc sy i)
  case 0
  then show ?case by simp
next
  case (Suc fuel)
  show ?case
  proof (cases "hc \<le> cum")
    case False
    then show ?thesis by simp
  next
    case True
    from Suc.prems have lt: "bits_left bs < fuel" by simp
    show ?thesis
    proof (cases "LookupArithmetic_entry fuel bs b1")
      case (Inl e)
      with LookupArithmetic_entry_fuel [OF lt Suc.prems(2), of b1] True show ?thesis by auto
    next
      case (Inr r)
      obtain xi bs1 where r: "r = (xi, bs1)" by (cases r) auto
      from LookupArithmetic_entry_left [OF Inr [unfolded r] Suc.prems(2)]
      have l1: "data bs1 = data bs" "bits_left bs1 < bits_left bs" by simp_all
      with Suc.prems have "bits_left bs1 + 2 \<le> fuel" "8 * length (data bs1) < 2 ^ 32"
        by simp_all
      from Suc.IH [OF this] Inr r True show ?thesis by simp
    qed
  qed
qed

lemma LookupArithmeticLowMemoryCount_fuel:
  assumes "33 \<le> fuel" and "8 * length (data (bitstream_A s)) + 2 \<le> fuel"
    and "8 * length (data (bitstream_A s)) < 2 ^ 32"
  shows "LookupArithmeticLowMemoryCount fuel s cum \<noteq> Inl OutOfFuel"
proof -
  let ?bs0 = "(bitstream_A s)\<lparr>position := tableStartBitPosition s\<rparr>"
  have d0: "data ?bs0 = data (bitstream_A s)" by simp
  show ?thesis
  proof (cases "DecodeUniversalLomont1 fuel ?bs0 6 0")
    case (Inl e)
    with Lomont1_fuel [OF assms(1), of ?bs0] show ?thesis
      by (auto simp add: LookupArithmeticLowMemoryCount_def Let_def)
  next
    case (Inr r1)
    obtain len bs1 where r1: "r1 = (len, bs1)" by (cases r1) auto
    from Lomont1_left [OF Inr [unfolded r1]] assms(3)
    have l1: "data bs1 = data (bitstream_A s)" by simp
    show ?thesis
    proof (cases "len = 0")
      case True
      with Inr r1 show ?thesis by (simp add: LookupArithmeticLowMemoryCount_def Let_def)
    next
      case False
      note len = False
      show ?thesis
      proof (cases "DecodeUniversalLomont1 fuel bs1 6 0")
        case (Inl e)
        with Lomont1_fuel [OF assms(1), of bs1] Inr r1 len show ?thesis
          by (auto simp add: LookupArithmeticLowMemoryCount_def Let_def)
      next
        case r2: (Inr r2)
        obtain b1 bs2 where p2: "r2 = (b1, bs2)" by (cases r2) auto
        from Lomont1_left [OF r2 [unfolded p2]] l1 assms(3)
        have l2: "data bs2 = data (bitstream_A s)" by simp
        show ?thesis
        proof (cases "ReadBitstream bs2 b1")
          case (Inl e)
          with ReadBitstream_error [OF Inl] Inr r1 len r2 p2 show ?thesis
            by (simp add: LookupArithmeticLowMemoryCount_def Let_def)
        next
          case r3: (Inr r3)
          obtain xi bs3 where p3: "r3 = (xi, bs3)" by (cases r3) auto
          from ReadBitstream_left [OF r3 [unfolded p3]] l2 assms(3)
          have l3: "data bs3 = data (bitstream_A s)" by simp
          then have "bits_left bs3 \<le> 8 * length (data (bitstream_A s))"
            by (simp add: bits_left_def)
          with assms(2,3) l3 have "bits_left bs3 + 2 \<le> fuel" "8 * length (data bs3) < 2 ^ 32"
            by simp_all
          from LookupArithmetic_loop_fuel [OF this]
          have "LookupArithmetic_loop fuel bs3 cum b1 0 xi (symbolMin s) (symbolMin s)
              \<noteq> Inl OutOfFuel" .
          with Inr r1 len r2 p2 r3 p3 show ?thesis
            by (auto simp add: LookupArithmeticLowMemoryCount_def Let_def split: sum.splits)
        qed
      qed
    qed
  qed
qed

text \<open>The table lookup leaves the source bytes, the cursor and the bit counters alone.\<close>

lemma Lomont1_loop_data:
  "DecodeUniversalLomont1_loop fuel bs v sh c d = Inr (r, bs') \<Longrightarrow> data bs' = data bs"
proof (induction fuel arbitrary: bs v sh c)
  case 0
  then show ?case by simp
next
  case (Suc fuel)
  from Suc.prems obtain b bs1 where r1: "ReadBitstream bs 1 = Inr (b, bs1)"
    by (auto split: sum.splits)
  with Suc.prems obtain chunk bs2 where
    r2: "ReadBitstream bs1 (word_of_int c) = Inr (chunk, bs2)"
    by (auto split: sum.splits)
  from ReadBitstream_frame [OF r1] ReadBitstream_frame [OF r2]
  have l2: "data bs2 = data bs" by simp
  show ?case
  proof (cases "b = 0")
    case True
    with Suc.prems r1 r2 have "bs' = bs2"
      by (auto simp add: Let_def split: if_splits)
    with l2 show ?thesis by simp
  next
    case False
    with Suc.prems r1 r2 obtain v2 where
      "DecodeUniversalLomont1_loop fuel bs2 v2 (sh + c) (next_chunkSize c d) d = Inr (r, bs')"
      by (auto simp add: Let_def split: if_splits)
    from Suc.IH [OF this] l2 show ?thesis by simp
  qed
qed

lemma LookupArithmetic_delta_data:
  "LookupArithmetic_delta fuel bs delta = Inr (r, bs') \<Longrightarrow> data bs' = data bs"
proof (induction fuel arbitrary: bs delta)
  case 0
  then show ?case by simp
next
  case (Suc fuel)
  from Suc.prems obtain b bs1 where r1: "ReadBitstream bs 1 = Inr (b, bs1)"
    by (auto split: sum.splits)
  from ReadBitstream_frame [OF r1] have l1: "data bs1 = data bs" by simp
  show ?case
  proof (cases "b = 0")
    case True
    with Suc.prems r1 have "bs' = bs1" by auto
    with l1 show ?thesis by simp
  next
    case False
    with Suc.prems r1 have "LookupArithmetic_delta fuel bs1 (delta + 1) = Inr (r, bs')"
      by auto
    from Suc.IH [OF this] l1 show ?thesis by simp
  qed
qed

lemma LookupArithmetic_entry_data:
  assumes "LookupArithmetic_entry fuel bs b1 = Inr (xi, bs')"
  shows "data bs' = data bs"
proof -
  from assms obtain dec bs1 where r1: "ReadBitstream bs 1 = Inr (dec, bs1)"
    by (auto simp add: LookupArithmetic_entry_def split: sum.splits)
  from ReadBitstream_frame [OF r1] have l1: "data bs1 = data bs" by simp
  show ?thesis
  proof (cases "dec = 0")
    case True
    with assms r1 have "ReadBitstream bs1 b1 = Inr (xi, bs')"
      by (simp add: LookupArithmetic_entry_def)
    from ReadBitstream_frame [OF this] l1 show ?thesis by simp
  next
    case False
    with assms r1 obtain delta bs2 x where
      d: "LookupArithmetic_delta fuel bs1 0 = Inr (delta, bs2)"
      and r3: "ReadBitstream bs2 (b1 + delta - 1) = Inr (x, bs')"
      by (auto simp add: LookupArithmetic_entry_def Let_def split: sum.splits if_splits)
    from LookupArithmetic_delta_data [OF d] ReadBitstream_frame [OF r3] l1
    show ?thesis by simp
  qed
qed

lemma LookupArithmetic_loop_data:
  "LookupArithmetic_loop fuel bs cum b1 lc hc sy i = Inr (sy', lc', hc', bs') \<Longrightarrow>
   data bs' = data bs"
proof (induction fuel arbitrary: bs b1 lc hc sy i)
  case 0
  then show ?case by (auto split: if_splits)
next
  case (Suc fuel)
  show ?case
  proof (cases "hc \<le> cum")
    case False
    with Suc.prems show ?thesis by auto
  next
    case True
    with Suc.prems obtain xi bs1 where
      e: "LookupArithmetic_entry fuel bs b1 = Inr (xi, bs1)"
      and rec: "LookupArithmetic_loop fuel bs1 cum (BitsRequired xi) hc (hc + xi)
          (if xi \<noteq> 0 then i + 1 else sy) (i + 1) = Inr (sy', lc', hc', bs')"
      by (auto split: sum.splits)
    from Suc.IH [OF rec] LookupArithmetic_entry_data [OF e] show ?thesis by simp
  qed
qed

lemma LookupArithmeticLowMemoryCount_frame:
  assumes "LookupArithmeticLowMemoryCount fuel s cum = Inr (sy, lc, hc, s')"
  shows "data (bitstream_A s') = data (bitstream_A s)
       \<and> position (bitstream_A s') = position (bitstream_A s)
       \<and> bitsRead s' = bitsRead s \<and> bitLength_A s' = bitLength_A s"
proof -
  let ?bs0 = "(bitstream_A s)\<lparr>position := tableStartBitPosition s\<rparr>"
  from assms obtain len bs1 where
    l1: "DecodeUniversalLomont1 fuel ?bs0 6 0 = Inr (len, bs1)"
    by (auto simp add: LookupArithmeticLowMemoryCount_def Let_def split: sum.splits)
  from Lomont1_loop_data [OF l1 [unfolded DecodeUniversalLomont1_def]]
  have d1: "data bs1 = data (bitstream_A s)" by simp
  show ?thesis
  proof (cases "len = 0")
    case True
    with assms l1 d1 show ?thesis
      by (auto simp add: LookupArithmeticLowMemoryCount_def Let_def)
  next
    case False
    with assms l1 obtain b1 bs2 xi bs3 bs4 where
      l2: "DecodeUniversalLomont1 fuel bs1 6 0 = Inr (b1, bs2)"
      and r3: "ReadBitstream bs2 b1 = Inr (xi, bs3)"
      and lp: "LookupArithmetic_loop fuel bs3 cum b1 0 xi (symbolMin s) (symbolMin s)
          = Inr (sy, lc, hc, bs4)"
      and s': "s' = s\<lparr>bitstream_A := bs4\<lparr>position := position (bitstream_A s)\<rparr>\<rparr>"
      by (auto simp add: LookupArithmeticLowMemoryCount_def Let_def split: sum.splits)
    from Lomont1_loop_data [OF l2 [unfolded DecodeUniversalLomont1_def]]
      ReadBitstream_frame [OF r3] LookupArithmetic_loop_data [OF lp] d1
    have "data bs4 = data (bitstream_A s)" by simp
    with s' show ?thesis by simp
  qed
qed

lemma step_not_zero:
  fixes l h t :: u32
  assumes "0 < t" and "t \<le> 0x20000000" and "0x20000000 < h - l + 1"
  shows "(h - l + 1) div t \<noteq> 0"
proof -
  from assms have n: "0 < unat t" "unat t \<le> unat (h - l + 1)"
    by (simp_all add: word_le_nat_alt word_less_nat_alt)
  then have "0 < unat (h - l + 1) div unat t" by (simp add: div_greater_zero_iff)
  then have "0 < unat ((h - l + 1) div t)" by (simp add: unat_div)
  then show ?thesis by (simp add: unat_gt_0)
qed

text \<open>
  C6. For an arithmetic state whose \<open>total\<close> is positive, that satisfies
  \<open>low < high\<close>, \<open>low \<le> buffer \<le> high\<close> and \<open>high - low + 1 > range25Percent\<close>, with
  \<open>high\<close> a 31-bit value as the data model has it, and for a stream that is
  well formed where the symbol is looked up (the cumulative count the table gives
  is positive and at most \<open>total\<close>): when \<open>DecompressArithmeticSymbol\<close> returns, the
  new state satisfies \<open>low < high\<close>, \<open>low \<le> buffer \<le> high\<close> and
  \<open>high - low + 1 > range25Percent\<close> again, \<open>high\<close> is still a 31-bit value and \<open>total\<close>
  is what it was. And it does return: with 31 iterations allowed to each loop,
  \<open>total\<close> at most \<open>range25Percent\<close> (so that the step is not zero) and a source that
  holds the bits of the compressed region the scaling can read (61 at most), the
  call returns the symbol the table lookup finds; and whatever the source holds,
  the E1/E2 and E3 loops stop, each step doubling the width of the window, and
  the lookup stops within the bits of the source, so that no call runs on
  without end.
\<close>

theorem DecompressArithmeticSymbol_restores_invariant:
  assumes "0 < total s"
    and "arithmetic_invariant s"
    and "highValue s < range100Percent"
    and "table_within_total fuel s"
  shows "(DecompressArithmeticSymbol fuel s = Inr (symbol, s') \<longrightarrow>
            arithmetic_invariant s' \<and> highValue s' < range100Percent \<and> total s' = total s)
       \<and> (31 \<le> fuel \<and> total s \<le> range25Percent \<and> arithmetic_reads_in_source 61 s
            \<and> LookupArithmeticLowMemoryCount fuel s
                 ((buffer s - lowValue s) div ((highValue s - lowValue s + 1) div total s))
               = Inr (sy, lc, hc, s1) \<longrightarrow>
            (\<exists>s''. DecompressArithmeticSymbol fuel s = Inr (sy, s'')))
       \<and> (33 \<le> fuel \<and> 8 * length (data (bitstream_A s)) + 2 \<le> fuel
            \<and> 8 * length (data (bitstream_A s)) < 2 ^ 32 \<longrightarrow>
            DecompressArithmeticSymbol fuel s \<noteq> Inl OutOfFuel)"
proof -
  let ?step = "(highValue s - lowValue s + 1) div total s"
  let ?cum = "(buffer s - lowValue s) div ?step"
  from assms(1) have t: "total s \<noteq> 0" by simp
  from assms(2,3) have w: "lowValue s \<le> buffer s" "buffer s \<le> highValue s"
    "highValue s < 0x80000000"
    by (simp_all add: arithmetic_invariant_def range100Percent_def)
  have upd: "arith_window (s1\<lparr>highValue := lowValue s1 + ?step * hc - 1,
        lowValue := lowValue s1 + ?step * lc\<rparr>)"
    if lk: "LookupArithmeticLowMemoryCount fuel s ?cum = Inr (sy, lc, hc, s1)"
      and st: "?step \<noteq> 0" for sy lc hc s1
  proof -
    from assms(4) lk have hc: "0 < hc" "hc \<le> total s"
      by (simp_all add: table_within_total_def)
    from LookupArithmeticLowMemoryCount_bracket [OF lk hc(1)]
    have br: "lc \<le> ?cum" "?cum < hc" and f1: "lowValue s1 = lowValue s" "buffer s1 = buffer s"
      by simp_all
    from symbol_update_window [OF w t refl st refl br hc(2)]
    show ?thesis by (simp add: arith_window_def f1 range100Percent_def)
  qed
  have unf: "DecompressArithmeticSymbol fuel s =
      (case DecompressArithmeticSymbol_e12 fuel
              (s1\<lparr>highValue := lowValue s1 + ?step * hc - 1,
                  lowValue := lowValue s1 + ?step * lc\<rparr>) of
         Inl e \<Rightarrow> Inl e
       | Inr s4 \<Rightarrow> (case DecompressArithmeticSymbol_e3 fuel s4 of
                      Inl e \<Rightarrow> Inl e | Inr s5 \<Rightarrow> Inr (sy, s5)))"
    if lk: "LookupArithmeticLowMemoryCount fuel s ?cum = Inr (sy, lc, hc, s1)"
      and st: "?step \<noteq> 0" for sy lc hc s1
    using t st lk
    by (simp add: DecompressArithmeticSymbol_def Let_def
        del: DecompressArithmeticSymbol_e12.simps DecompressArithmeticSymbol_e3.simps)
  show ?thesis
  proof (rule conjI [OF _ conjI]; rule impI)
    assume r: "DecompressArithmeticSymbol fuel s = Inr (symbol, s')"
    from r t have st: "?step \<noteq> 0"
      by (auto simp add: DecompressArithmeticSymbol_def Let_def split: if_splits)
    from r t st obtain lc hc s1 s4 where
      lk: "LookupArithmeticLowMemoryCount fuel s ?cum = Inr (symbol, lc, hc, s1)"
      and e12: "DecompressArithmeticSymbol_e12 fuel
          (s1\<lparr>highValue := lowValue s1 + ?step * hc - 1,
              lowValue := lowValue s1 + ?step * lc\<rparr>) = Inr s4"
      and e3: "DecompressArithmeticSymbol_e3 fuel s4 = Inr s'"
      by (auto simp add: DecompressArithmeticSymbol_def Let_def
          simp del: DecompressArithmeticSymbol_e12.simps DecompressArithmeticSymbol_e3.simps
          split: sum.splits)
    from assms(4) lk have hc: "0 < hc" by (simp add: table_within_total_def)
    from LookupArithmeticLowMemoryCount_bracket [OF lk hc]
    have f1: "lowValue s1 = lowValue s" "buffer s1 = buffer s" "total s1 = total s"
      by simp_all
    from e12_loop_window [OF upd [OF lk st] e12]
    have w4: "arith_window s4" "lowValue s4 < range50Percent" "range50Percent \<le> highValue s4"
      and t4: "total s4 = total s"
      by (simp_all add: f1)
    from e3_loop_window [OF w4 e3]
    have w': "arith_window s'" "lowValue s' < range50Percent" "range50Percent \<le> highValue s'"
      "\<not> (range25Percent \<le> lowValue s' \<and> highValue s' < range75Percent)"
      and t': "total s' = total s"
      by (simp_all add: t4)
    from w' have "0x20000000 < highValue s' - lowValue s' + 1 \<and> lowValue s' < highValue s'"
      by (intro straddle_range)
        (simp_all add: arith_window_def range25Percent_def range50Percent_def range75Percent_def
          range100Percent_def)
    with w'(1) t'
    show "arithmetic_invariant s' \<and> highValue s' < range100Percent \<and> total s' = total s"
      by (simp add: arithmetic_invariant_def arith_window_def range25Percent_def)
  next
    assume a: "31 \<le> fuel \<and> total s \<le> range25Percent \<and> arithmetic_reads_in_source 61 s
        \<and> LookupArithmeticLowMemoryCount fuel s ?cum = Inr (sy, lc, hc, s1)"
    then have fuel: "31 \<le> fuel" and tot: "total s \<le> 0x20000000"
      and rs: "arithmetic_reads_in_source 61 s"
      and lk: "LookupArithmeticLowMemoryCount fuel s ?cum = Inr (sy, lc, hc, s1)"
      by (simp_all add: range25Percent_def)
    from assms(2) have "0x20000000 < highValue s - lowValue s + 1"
      by (simp add: arithmetic_invariant_def range25Percent_def)
    from step_not_zero [OF assms(1) tot this] have st: "?step \<noteq> 0" .
    let ?s3 = "s1\<lparr>highValue := lowValue s1 + ?step * hc - 1,
        lowValue := lowValue s1 + ?step * lc\<rparr>"
    from LookupArithmeticLowMemoryCount_frame [OF lk] rs
    have "arithmetic_reads_in_source 61 s1" by (simp add: arithmetic_reads_in_source_alt)
    then have "arithmetic_reads_in_source 61 ?s3"
      by (simp add: arithmetic_reads_in_source_alt)
    with scaling_returns [OF upd [OF lk st] fuel]
    obtain s4 s5 where "DecompressArithmeticSymbol_e12 fuel ?s3 = Inr s4"
      "DecompressArithmeticSymbol_e3 fuel s4 = Inr s5"
      by blast
    with unf [OF lk st] show "\<exists>s''. DecompressArithmeticSymbol fuel s = Inr (sy, s'')"
      by simp
  next
    assume a: "33 \<le> fuel \<and> 8 * length (data (bitstream_A s)) + 2 \<le> fuel
        \<and> 8 * length (data (bitstream_A s)) < 2 ^ 32"
    then have fuel: "31 \<le> fuel" by simp
    from a have lf: "LookupArithmeticLowMemoryCount fuel s ?cum \<noteq> Inl OutOfFuel"
      by (intro LookupArithmeticLowMemoryCount_fuel) simp_all
    show "DecompressArithmeticSymbol fuel s \<noteq> Inl OutOfFuel"
    proof (cases "?step = 0")
      case True
      then show ?thesis by (simp add: DecompressArithmeticSymbol_def Let_def)
    next
      case False
      show ?thesis
      proof (cases "LookupArithmeticLowMemoryCount fuel s ?cum")
        case (Inl e)
        with lf t False show ?thesis
          by (auto simp add: DecompressArithmeticSymbol_def Let_def)
      next
        case (Inr r)
        obtain sy lc hc s1 where r: "r = (sy, lc, hc, s1)" by (cases r) auto
        note lk = Inr [unfolded r]
        from scaling_returns [OF upd [OF lk False] fuel, THEN conjunct1] unf [OF lk False]
        show ?thesis by (auto split: sum.splits)
      qed
    qed
  qed
qed

theorem DecompressArithmeticSymbol_restores_invariant_witness:
  "DecompressArithmeticStart 106 arithmetic_state_example arithmetic_stream_example 13
     = Inr (3, arithmetic_state_example)
   \<and> DecompressArithmeticSymbol 106 arithmetic_state_example
       = Inr (1, arithmetic_state_at 88 715827880 2147483643 1454615646 72)
   \<and> DecompressArithmeticSymbol 106 (arithmetic_state_at 88 715827880 2147483643 1454615646 72)
       = Inr (0, arithmetic_state_at 88 715827880 1670265055 1454615646 72)
   \<and> DecompressArithmeticSymbol 106 (arithmetic_state_at 88 715827880 1670265055 1454615646 72)
       = Inr (1, arithmetic_state_at 90 39768200 1312351099 449753465 74)
   \<and> DecompressArithmeticSymbol 106 (arithmetic_state_at 90 39768200 1312351099 449753465 74)
       = Inr (0, arithmetic_state_at 91 79536400 1776313599 899506931 75)
   \<and> DecompressArithmeticSymbol_e12 106 (arithmetic_state_at 88 1352119330 1670265054 1454615646 72)
       = Inr (arithmetic_state_at 89 556755012 1193046461 761747644 73)
   \<and> DecompressArithmeticSymbol_e3 106 (arithmetic_state_at 89 556755012 1193046461 761747644 73)
       = Inr (arithmetic_state_at 90 39768200 1312351099 449753465 74)
   \<and> DecompressArithmeticSymbol_e12 106 (arithmetic_state_at 90 39768200 888156799 449753465 74)
       = Inr (arithmetic_state_at 91 79536400 1776313599 899506931 75)
   \<and> arithmetic_invariant (arithmetic_state_at 90 39768200 1312351099 449753465 74)
   \<and> arithmetic_invariant (arithmetic_state_at 91 79536400 1776313599 899506931 75)
   \<and> (\<exists>s''. DecompressArithmeticSymbol 106
          (arithmetic_state_at 88 715827880 1670265055 1454615646 72) = Inr (1, s''))
   \<and> DecompressArithmeticSymbol 106 (arithmetic_state_at 88 715827880 1670265055 1454615646 72)
       \<noteq> Inl OutOfFuel"
proof -
  let ?s0 = arithmetic_state_example
  let ?s1 = "arithmetic_state_at 88 715827880 2147483643 1454615646 72"
  let ?s2 = "arithmetic_state_at 88 715827880 1670265055 1454615646 72"
  let ?s3 = "arithmetic_state_at 90 39768200 1312351099 449753465 74"
  let ?s4 = "arithmetic_state_at 91 79536400 1776313599 899506931 75"
  have st: "DecompressArithmeticStart 106 ?s0 arithmetic_stream_example 13 = Inr (3, ?s0)"
    by code_simp
  have r0: "DecompressArithmeticSymbol 106 ?s0 = Inr (1, ?s1)" by code_simp
  have r1: "DecompressArithmeticSymbol 106 ?s1 = Inr (0, ?s2)" by code_simp
  have r2: "DecompressArithmeticSymbol 106 ?s2 = Inr (1, ?s3)" by code_simp
  have r3: "DecompressArithmeticSymbol 106 ?s3 = Inr (0, ?s4)" by code_simp
  have e2: "DecompressArithmeticSymbol_e12 106
      (arithmetic_state_at 88 1352119330 1670265054 1454615646 72)
      = Inr (arithmetic_state_at 89 556755012 1193046461 761747644 73)"
    by code_simp
  have e3: "DecompressArithmeticSymbol_e3 106
      (arithmetic_state_at 89 556755012 1193046461 761747644 73) = Inr ?s3"
    by code_simp
  have e1: "DecompressArithmeticSymbol_e12 106
      (arithmetic_state_at 90 39768200 888156799 449753465 74) = Inr ?s4"
    by code_simp
  have h2: "0 < total ?s2" "arithmetic_invariant ?s2" "highValue ?s2 < range100Percent"
    "table_within_total 106 ?s2"
    by code_simp+
  have h3: "0 < total ?s3" "arithmetic_invariant ?s3" "highValue ?s3 < range100Percent"
    "table_within_total 106 ?s3"
    by code_simp+
  note t2 = DecompressArithmeticSymbol_restores_invariant [OF h2]
  note t3 = DecompressArithmeticSymbol_restores_invariant [OF h3]
  from t2 [of 1 ?s3, THEN conjunct1, THEN mp, OF r2] have i3: "arithmetic_invariant ?s3"
    by (rule conjunct1)
  from t3 [of 0 ?s4, THEN conjunct1, THEN mp, OF r3] have i4: "arithmetic_invariant ?s4"
    by (rule conjunct1)
  have lk: "LookupArithmeticLowMemoryCount 106 ?s2
      ((buffer ?s2 - lowValue ?s2) div ((highValue ?s2 - lowValue ?s2 + 1) div total ?s2))
      = Inr (1, 2, 3, ?s2)"
    by code_simp
  have c2: "(31::nat) \<le> 106" "total ?s2 \<le> range25Percent" "arithmetic_reads_in_source 61 ?s2"
    by code_simp+
  from c2 lk have "31 \<le> (106::nat) \<and> total ?s2 \<le> range25Percent
      \<and> arithmetic_reads_in_source 61 ?s2
      \<and> LookupArithmeticLowMemoryCount 106 ?s2
        ((buffer ?s2 - lowValue ?s2) div ((highValue ?s2 - lowValue ?s2 + 1) div total ?s2))
      = Inr (1, 2, 3, ?s2)"
    by (intro conjI)
  from t2 [THEN conjunct2, THEN conjunct1, THEN mp, OF this]
  have ex: "\<exists>s''. DecompressArithmeticSymbol 106 ?s2 = Inr (1, s'')" .
  have "length (data (bitstream_A ?s2)) = 13" by code_simp
  then have c3: "33 \<le> (106::nat) \<and> 8 * length (data (bitstream_A ?s2)) + 2 \<le> 106
      \<and> 8 * length (data (bitstream_A ?s2)) < 2 ^ 32"
    by simp
  from t2 [THEN conjunct2, THEN conjunct2, THEN mp, OF this]
  have nf: "DecompressArithmeticSymbol 106 ?s2 \<noteq> Inl OutOfFuel" .
  from st r0 r1 r2 r3 e2 e3 e1 i3 i4 ex nf show ?thesis by (intro conjI)
qed

section \<open>LZ77 and LZCL blocks: the claims\<close>

lemma copy_run_spec_Suc:
  "copy_run_spec dl bi delta (Suc n) d
     = copy_run_spec dl (bi + 1) delta n (copy_step dl bi delta 0 d)"
proof -
  have "[0..<Suc n] = 0 # map Suc [0..<n]"
    by (simp add: upt_conv_Cons map_Suc_upt del: upt_Suc)
  moreover have "copy_step dl bi delta (Suc i) = copy_step dl (bi + 1) delta i" for i
    by (rule ext) (simp add: copy_step_def add.assoc add.commute add.left_commute)
  ultimately show ?thesis
    by (simp add: copy_run_spec_def fold_map comp_def del: upt_Suc)
qed

lemma length_copy_run_spec [simp]: "length (copy_run_spec dl bi delta n d) = length d"
  by (induction n arbitrary: bi d) (simp_all add: copy_run_spec_def copy_step_def)

lemma word_mod_index:
  fixes x dl :: u32
  assumes "dl \<noteq> 0" and "unat dl \<le> n"
  shows "unat (x mod dl) < n"
proof -
  from assms(1) have "0 < unat dl" by (simp add: unat_gt_0)
  then have "unat x mod unat dl < unat dl" by simp
  with assms(2) show ?thesis by (simp add: unat_mod)
qed

lemma DecompressLZ77Block_copy_spec:
  "destLength_77 s \<noteq> 0 \<Longrightarrow> unat (destLength_77 s) \<le> length (dest_77 s) \<Longrightarrow>
   DecompressLZ77Block_copy n s delta =
     Inr (s\<lparr>dest_77 := copy_run_spec (destLength_77 s) (byteIndex_77 s) delta n (dest_77 s),
            byteIndex_77 := byteIndex_77 s + of_nat n\<rparr>)"
proof (induction n arbitrary: s)
  case 0
  then show ?case by (simp add: copy_run_spec_def)
next
  case (Suc n)
  let ?src = "unat ((byteIndex_77 s + delta) mod destLength_77 s)"
  let ?dst = "unat (byteIndex_77 s mod destLength_77 s)"
  let ?s1 = "s\<lparr>dest_77 := (dest_77 s)[?dst := dest_77 s ! ?src],
      byteIndex_77 := byteIndex_77 s + 1\<rparr>"
  from Suc.prems have b: "?src < length (dest_77 s)" "?dst < length (dest_77 s)"
    by (simp_all add: word_mod_index)
  from Suc.prems have "destLength_77 ?s1 \<noteq> 0" "unat (destLength_77 ?s1) \<le> length (dest_77 ?s1)"
    by simp_all
  note IH = Suc.IH [OF this]
  have st: "(dest_77 s)[?dst := dest_77 s ! ?src]
      = copy_step (destLength_77 s) (byteIndex_77 s) delta 0 (dest_77 s)"
    by (simp add: copy_step_def)
  have step: "DecompressLZ77Block_copy (Suc n) s delta = DecompressLZ77Block_copy n ?s1 delta"
    using Suc.prems(1) b by (simp add: Let_def)
  have "?s1\<lparr>dest_77 := copy_run_spec (destLength_77 ?s1) (byteIndex_77 ?s1) delta n (dest_77 ?s1),
          byteIndex_77 := byteIndex_77 ?s1 + of_nat n\<rparr>
      = s\<lparr>dest_77 := copy_run_spec (destLength_77 s) (byteIndex_77 s) delta (Suc n) (dest_77 s),
          byteIndex_77 := byteIndex_77 s + of_nat (Suc n)\<rparr>"
    by (simp add: copy_run_spec_Suc st add.assoc)
  with step IH show ?case by (simp only:)
qed






text \<open>
  C5. One call of \<open>DecompressLZ77Block\<close> on an LZ77 state whose \<open>dest\<close> is a buffer
  of \<open>dest_length > 0\<close> bytes. If \<open>byte_index \<ge> byte_length\<close> it returns the end
  token and the state as it was: no bit read, no byte written. Otherwise it reads
  one decision bit. On 0 it reads \<open>bits_per_symbol\<close> bits, stores them (as a byte)
  at \<open>dest[byte_index mod dest_length]\<close>, increments \<open>byte_index\<close> and returns 1.
  On 1 it reads \<open>bits_per_token\<close> bits as \<open>token\<close>, takes
  \<open>length = token / (max_distance + 1) + min_length\<close>,
  \<open>distance = token mod (max_distance + 1)\<close> and
  \<open>delta = dest_length - distance - 1\<close>, makes the \<open>length\<close> copies of the
  specified run, leaves \<open>byte_index\<close> advanced by \<open>length\<close> and returns \<open>length\<close>.
  All arithmetic is that of the 32-bit fields.
\<close>

theorem DecompressLZ77Block_step:
  assumes "destLength_77 s \<noteq> 0"
    and "unat (destLength_77 s) \<le> length (dest_77 s)"
  shows "(byteLength_77 s \<le> byteIndex_77 s \<longrightarrow>
            DecompressLZ77Block s = Inr (CL_COMPRESSOR_END_TOKEN, s))
       \<and> (byteIndex_77 s < byteLength_77 s
            \<and> ReadBitstream (bitstream_77 s) 1 = Inr (0, bs1)
            \<and> ReadBitstream bs1 (ucast (actualBitsPerSymbol s)) = Inr (lit, bs2) \<longrightarrow>
            DecompressLZ77Block s
              = Inr (1, s\<lparr>bitstream_77 := bs2,
                           dest_77 := (dest_77 s)[unat (byteIndex_77 s mod destLength_77 s)
                                                    := ucast lit],
                           byteIndex_77 := byteIndex_77 s + 1\<rparr>))
       \<and> (byteIndex_77 s < byteLength_77 s
            \<and> ReadBitstream (bitstream_77 s) 1 = Inr (1, bs1)
            \<and> ReadBitstream bs1 (ucast (actualBitsPerToken s)) = Inr (token, bs2)
            \<and> actualMaxDistance_77 s + 1 \<noteq> 0 \<longrightarrow>
            DecompressLZ77Block s
              = Inr (token div (actualMaxDistance_77 s + 1) + ucast (actualMinLength_77 s),
                     s\<lparr>bitstream_77 := bs2,
                       dest_77 := copy_run_spec (destLength_77 s) (byteIndex_77 s)
                         (destLength_77 s - token mod (actualMaxDistance_77 s + 1) - 1)
                         (unat (token div (actualMaxDistance_77 s + 1)
                                  + ucast (actualMinLength_77 s)))
                         (dest_77 s),
                       byteIndex_77 := byteIndex_77 s
                         + (token div (actualMaxDistance_77 s + 1)
                              + ucast (actualMinLength_77 s))\<rparr>))"
proof (intro conjI impI)
  assume "byteLength_77 s \<le> byteIndex_77 s"
  then show "DecompressLZ77Block s = Inr (CL_COMPRESSOR_END_TOKEN, s)"
    by (simp add: DecompressLZ77Block_def)
next
  assume a: "byteIndex_77 s < byteLength_77 s
      \<and> ReadBitstream (bitstream_77 s) 1 = Inr (0, bs1)
      \<and> ReadBitstream bs1 (ucast (actualBitsPerSymbol s)) = Inr (lit, bs2)"
  from assms have "unat (byteIndex_77 s mod destLength_77 s) < length (dest_77 s)"
    by (rule word_mod_index)
  with a assms(1) show "DecompressLZ77Block s
      = Inr (1, s\<lparr>bitstream_77 := bs2,
                   dest_77 := (dest_77 s)[unat (byteIndex_77 s mod destLength_77 s) := ucast lit],
                   byteIndex_77 := byteIndex_77 s + 1\<rparr>)"
    by (simp add: DecompressLZ77Block_def Let_def not_le [symmetric])
next
  let ?len = "token div (actualMaxDistance_77 s + 1) + ucast (actualMinLength_77 s)"
  let ?delta = "destLength_77 s - token mod (actualMaxDistance_77 s + 1) - 1"
  let ?s1 = "s\<lparr>bitstream_77 := bs2\<rparr>"
  assume a: "byteIndex_77 s < byteLength_77 s
      \<and> ReadBitstream (bitstream_77 s) 1 = Inr (1, bs1)
      \<and> ReadBitstream bs1 (ucast (actualBitsPerToken s)) = Inr (token, bs2)
      \<and> actualMaxDistance_77 s + 1 \<noteq> 0"
  from assms have "destLength_77 ?s1 \<noteq> 0" "unat (destLength_77 ?s1) \<le> length (dest_77 ?s1)"
    by simp_all
  from DecompressLZ77Block_copy_spec [OF this, of "unat ?len" ?delta]
  have "DecompressLZ77Block_run ?s1 (token mod (actualMaxDistance_77 s + 1)) ?len
      = Inr (?len, s\<lparr>bitstream_77 := bs2,
               dest_77 := copy_run_spec (destLength_77 s) (byteIndex_77 s) ?delta (unat ?len)
                 (dest_77 s),
               byteIndex_77 := byteIndex_77 s + ?len\<rparr>)"
    by (simp add: DecompressLZ77Block_run_def Let_def)
  with a show "DecompressLZ77Block s
      = Inr (?len, s\<lparr>bitstream_77 := bs2,
               dest_77 := copy_run_spec (destLength_77 s) (byteIndex_77 s) ?delta (unat ?len)
                 (dest_77 s),
               byteIndex_77 := byteIndex_77 s + ?len\<rparr>)"
    by (simp add: DecompressLZ77Block_def Let_def not_le [symmetric])
qed

theorem DecompressLZ77Block_step_witness:
  "DecompressLZ77Start 33 lz77_state_example_ab lz77_stream_example 11 [0, 0, 0, 0, 0, 0, 0, 0] 8
     = Inr lz77_state_example
   \<and> DecompressLZ77Block lz77_state_example
     = Inr (1, lz77_state_example
                 \<lparr>bitstream_77 := \<lparr>position = 70, data = lz77_stream_example\<rparr>,
                   dest_77 := [0x61, 0, 0, 0, 0, 0, 0, 0], byteIndex_77 := 1\<rparr>)
   \<and> DecompressLZ77Block lz77_state_example_ab
     = Inr (4, lz77_state_example_ab
                 \<lparr>bitstream_77 := \<lparr>position = 84, data = lz77_stream_example\<rparr>,
                   dest_77 := [0x61, 0x62, 0x61, 0x62, 0x61, 0x62, 0, 0], byteIndex_77 := 6\<rparr>)
   \<and> DecompressLZ77Block
        (lz77_state_example_ab
           \<lparr>bitstream_77 := \<lparr>position = 84, data = lz77_stream_example\<rparr>,
             dest_77 := [0x61, 0x62, 0x61, 0x62, 0x61, 0x62, 0, 0], byteIndex_77 := 6\<rparr>)
     = Inr (CL_COMPRESSOR_END_TOKEN,
            lz77_state_example_ab
              \<lparr>bitstream_77 := \<lparr>position = 84, data = lz77_stream_example\<rparr>,
                dest_77 := [0x61, 0x62, 0x61, 0x62, 0x61, 0x62, 0, 0], byteIndex_77 := 6\<rparr>)"
proof -
  let ?d = lz77_stream_example
  let ?s0 = lz77_state_example
  let ?s2 = lz77_state_example_ab
  let ?s6 = "lz77_state_example_ab
      \<lparr>bitstream_77 := \<lparr>position = 84, data = lz77_stream_example\<rparr>,
        dest_77 := [0x61, 0x62, 0x61, 0x62, 0x61, 0x62, 0, 0], byteIndex_77 := 6\<rparr>"
  have st: "DecompressLZ77Start 33 ?s2 ?d 11 [0, 0, 0, 0, 0, 0, 0, 0] 8 = Inr ?s0"
    by code_simp
  have h0: "destLength_77 ?s0 \<noteq> 0" "unat (destLength_77 ?s0) \<le> length (dest_77 ?s0)"
    and h2: "destLength_77 ?s2 \<noteq> 0" "unat (destLength_77 ?s2) \<le> length (dest_77 ?s2)"
    and h6: "destLength_77 ?s6 \<noteq> 0" "unat (destLength_77 ?s6) \<le> length (dest_77 ?s6)"
    by (simp_all add: lz77_state_example_def lz77_state_example_ab_def)
  have lit: "byteIndex_77 ?s0 < byteLength_77 ?s0
      \<and> ReadBitstream (bitstream_77 ?s0) 1 = Inr (0, \<lparr>position = 62, data = ?d\<rparr>)
      \<and> ReadBitstream \<lparr>position = 62, data = ?d\<rparr> (ucast (actualBitsPerSymbol ?s0))
          = Inr (0x61, \<lparr>position = 70, data = ?d\<rparr>)"
    by code_simp
  have run: "byteIndex_77 ?s2 < byteLength_77 ?s2
      \<and> ReadBitstream (bitstream_77 ?s2) 1 = Inr (1, \<lparr>position = 80, data = ?d\<rparr>)
      \<and> ReadBitstream \<lparr>position = 80, data = ?d\<rparr> (ucast (actualBitsPerToken ?s2))
          = Inr (9, \<lparr>position = 84, data = ?d\<rparr>)
      \<and> actualMaxDistance_77 ?s2 + 1 \<noteq> 0"
    by code_simp
  have fin: "byteLength_77 ?s6 \<le> byteIndex_77 ?s6"
    by (simp add: lz77_state_example_def lz77_state_example_ab_def)
  have c: "copy_run_spec 8 2 6 4 [0x61, 0x62, 0, 0, 0, 0, 0, 0]
      = [0x61, 0x62, 0x61, 0x62, 0x61, 0x62, 0, 0 :: u8]"
    by code_simp
  from DecompressLZ77Block_step [OF h0, THEN conjunct2, THEN conjunct1, THEN mp, OF lit]
  have a: "DecompressLZ77Block ?s0
     = Inr (1, ?s0\<lparr>bitstream_77 := \<lparr>position = 70, data = ?d\<rparr>,
                   dest_77 := [0x61, 0, 0, 0, 0, 0, 0, 0], byteIndex_77 := 1\<rparr>)"
    by (simp add: lz77_state_example_def)
  from DecompressLZ77Block_step [OF h2, THEN conjunct2, THEN conjunct2, THEN mp, OF run]
  have b: "DecompressLZ77Block ?s2 = Inr (4, ?s6)"
    by (simp add: lz77_state_example_def lz77_state_example_ab_def c)
  from DecompressLZ77Block_step [OF h6, THEN conjunct1, THEN mp, OF fin]
  have e: "DecompressLZ77Block ?s6 = Inr (CL_COMPRESSOR_END_TOKEN, ?s6)" .
  from st a b e show ?thesis by (intro conjI)
qed

section \<open>LZCL token mode: the claim\<close>

text \<open>Whatever the stream, the state \<open>DecompressLZCLStart\<close> returns has \<open>useTokens = 0\<close>.\<close>

lemma DecompressLZCLStart_useTokens:
  assumes "DecompressLZCLStart fuel source sourceLength dest destLength = Inr (n, s)"
  shows "useTokens s = 0"
  using assms
  by (auto simp add: DecompressLZCLStart_def Let_def LZCLState_zero_def
      split: sum.splits if_splits prod.splits)

text \<open>
  C2. The claim is that after a token-mode header bit of 0 every copy decision
  decodes one combined token and splits it into
  \<open>length = token / (max_distance + 1) + min_length\<close> and
  \<open>distance = token mod (max_distance + 1)\<close>. \<open>DecompressLZCLStart\<close> reads the bit and
  fills \<open>tokenCodec\<close>, but never assigns \<open>useTokens\<close>, which stays 0 from the
  \<open>memset\<close>; \<open>GetLZCLDecodedToken\<close> then takes its \<open>useTokens == 0\<close> branch, which
  reads the distance from \<open>distanceCodec\<close> (the storage of \<open>tokenCodec\<close>) and the
  length from \<open>lengthCodec\<close>, still zeroed: a fixed codec of 0 bits. On
  \<open>lzcl_stream_token\<close> the token is 5, with \<open>max_distance = 1\<close> and \<open>min_length = 2\<close>:
  the claim gives distance 1 and length 4, the code takes distance 5 and length
  2, copies two bytes from four places ahead and returns 2.
\<close>

theorem LZCL_combined_token_not_split:
  "DecompressLZCLStart 33 lzcl_stream_token 11 [0, 0, 0, 0, 0, 0, 0, 0] 8
     = Inr (6, lzcl_state_token)
   \<and> ReadBitstream \<lparr>position = 67, data = lzcl_stream_token\<rparr> 1
     = Inr (0, \<lparr>position = 68, data = lzcl_stream_token\<rparr>)
   \<and> useTokens lzcl_state_token = 0
   \<and> DecompressLZCLBlock 33 lzcl_state_token = Inr (1, lzcl_state_token_a)
   \<and> DecompressLZCLBlock 33 lzcl_state_token_a = Inr (1, lzcl_state_token_ab)
   \<and> GetLZCLDecision 33 lzcl_state_token_ab = Inr (1, lzcl_state_token_decided)
   \<and> DecodeLZCLSymbol 33 (tokenCodec lzcl_state_token_decided)
     = Inr (5, lzcl_fixed_codec 84 3 7)
   \<and> (5::u32) mod (actualMaxDistance_CL lzcl_state_token_decided + 1) = 1
   \<and> (5::u32) div (actualMaxDistance_CL lzcl_state_token_decided + 1)
        + actualMinLength_CL lzcl_state_token_decided = 4
   \<and> GetLZCLDecodedToken 33 lzcl_state_token_decided
     = Inr (5, 2, lzcl_state_token_decided\<lparr>distanceCodec := lzcl_fixed_codec 84 3 7\<rparr>)
   \<and> DecompressLZCLBlock 33 lzcl_state_token_ab = Inr (2, lzcl_state_token_copied)
   \<and> dest_CL lzcl_state_token_copied = [0x61, 0x62, 0, 0, 0, 0, 0, 0]"
  by code_simp

end
